theory Spec2Isabelle
  imports Complex_Main
begin

section \<open>Python values and the operations the pipeline applies to them\<close>

text \<open>
  The pipeline of \<^verbatim>\<open>cleaned_tiktok_influencer_finder.py\<close> works on whatever
  \<^verbatim>\<open>response.json()\<close> returns, so the model works on JSON values. A JSON object is an
  association list read front to back (the first binding of a key is the entry of the
  Python dict). JSON numbers are integers here: the counts of the API are integers, and
  non-integral numbers are outside the model.
\<close>

datatype json =
    JNull
  | JBool bool
  | JInt int
  | JStr string
  | JList "json list"
  | JObj "(string \<times> json) list"

text \<open>The exceptions of Python the pipeline can run into.\<close>

datatype py_error =
    KeyError | TypeError | ValueError | AttributeError | ZeroDivisionError | OverflowError

text \<open>\<^verbatim>\<open>d[k]\<close> for a string \<open>k\<close>: only a dict can be subscripted with a string.\<close>

fun py_getitem :: "json \<Rightarrow> string \<Rightarrow> py_error + json" where
  "py_getitem (JObj kvs) k = (case map_of kvs k of None \<Rightarrow> Inl KeyError | Some v \<Rightarrow> Inr v)"
| "py_getitem _ k = Inl TypeError"

text \<open>\<^verbatim>\<open>d.get(k, default)\<close>: a method of dicts only.\<close>

fun py_get :: "json \<Rightarrow> string \<Rightarrow> json \<Rightarrow> py_error + json" where
  "py_get (JObj kvs) k dflt = (case map_of kvs k of None \<Rightarrow> Inr dflt | Some v \<Rightarrow> Inr v)"
| "py_get _ k dflt = Inl AttributeError"

fun starts_with :: "string \<Rightarrow> string \<Rightarrow> bool" where
  "starts_with s [] = True"
| "starts_with [] (c # p) = False"
| "starts_with (d # s) (c # p) = (d = c \<and> starts_with s p)"

fun substring :: "string \<Rightarrow> string \<Rightarrow> bool" where
  "substring p [] = (p = [])"
| "substring p (d # s) = (starts_with (d # s) p \<or> substring p s)"

text \<open>
  \<^verbatim>\<open>k in x\<close> for a string \<open>k\<close>: a key of a dict, an element of a list, a substring of a
  string; \<^verbatim>\<open>None\<close>, booleans and integers are not iterable.
\<close>

fun py_contains :: "string \<Rightarrow> json \<Rightarrow> py_error + bool" where
  "py_contains k (JObj kvs) = Inr (k \<in> set (map fst kvs))"
| "py_contains k (JList xs) = Inr (JStr k \<in> set xs)"
| "py_contains k (JStr s) = Inr (substring k s)"
| "py_contains k _ = Inl TypeError"

text \<open>Truth value of a Python object, as \<^verbatim>\<open>not x\<close> and \<^verbatim>\<open>if x\<close> test it.\<close>

fun py_truthy :: "json \<Rightarrow> bool" where
  "py_truthy JNull = False"
| "py_truthy (JBool b) = b"
| "py_truthy (JInt n) = (n \<noteq> 0)"
| "py_truthy (JStr s) = (s \<noteq> [])"
| "py_truthy (JList xs) = (xs \<noteq> [])"
| "py_truthy (JObj kvs) = (kvs \<noteq> [])"

text \<open>
  The elements a \<^verbatim>\<open>for\<close> loop, \<^verbatim>\<open>list.extend\<close> or a generator sees: the elements
  of a list, the keys of a dict, the characters of a string. \<^verbatim>\<open>len\<close> of these three is
  the number of those elements.
\<close>

fun py_iter :: "json \<Rightarrow> py_error + json list" where
  "py_iter (JList xs) = Inr xs"
| "py_iter (JObj kvs) = Inr (map JStr (remdups (map fst kvs)))"
| "py_iter (JStr s) = Inr (map (\<lambda>c. JStr [c]) s)"
| "py_iter _ = Inl TypeError"

subsection \<open>\<^verbatim>\<open>int(x)\<close>\<close>

text \<open>
  \<^verbatim>\<open>int\<close> of a string strips white space, reads an optional sign and then decimal
  digits, where single underscores may separate digits. A character is a code point below
  256 here, and the limit of recent Python versions on the number of digits is not
  modelled. Of these code points \<^verbatim>\<open>int\<close> strips the tab, the line feed, the vertical
  tab, the form feed, the carriage return (9 to 13), the space (32), the next-line
  character (133) and the no-break space (160); the separators 28 to 31 are not stripped,
  a string that carries one is refused with \<^verbatim>\<open>ValueError\<close>.
\<close>

definition is_space :: "char \<Rightarrow> bool" where
  "is_space c = (let n = (of_char c :: nat) in (9 \<le> n \<and> n \<le> 13) \<or> n = 32 \<or> n = 133 \<or> n = 160)"

definition is_digit :: "char \<Rightarrow> bool" where
  "is_digit c = (let n = (of_char c :: nat) in 48 \<le> n \<and> n \<le> 57)"

definition digit_val :: "char \<Rightarrow> int" where
  "digit_val c = int (of_char c) - 48"

text \<open>
  \<open>digits_from acc s\<close> reads \<open>s\<close> after a digit has been read, \<open>acc\<close> being the value
  so far: the rest is digits, each preceded by at most one underscore.
\<close>

fun digits_from :: "int \<Rightarrow> string \<Rightarrow> int option" where
  "digits_from acc [] = Some acc"
| "digits_from acc [c] = (if is_digit c then Some (10 * acc + digit_val c) else None)"
| "digits_from acc (c # d # s) =
     (if is_digit c then digits_from (10 * acc + digit_val c) (d # s)
      else if c = CHR ''_'' \<and> is_digit d then digits_from (10 * acc + digit_val d) s
      else None)"

definition unsigned_of_string :: "string \<Rightarrow> int option" where
  "unsigned_of_string s =
     (case s of [] \<Rightarrow> None
      | c # r \<Rightarrow> if is_digit c then digits_from (digit_val c) r else None)"

definition strip :: "string \<Rightarrow> string" where
  "strip s = rev (dropWhile is_space (rev (dropWhile is_space s)))"

definition int_of_string :: "string \<Rightarrow> int option" where
  "int_of_string s =
     (case strip s of
        [] \<Rightarrow> None
      | c # r \<Rightarrow>
          if c = CHR ''-'' then map_option uminus (unsigned_of_string r)
          else if c = CHR ''+'' then unsigned_of_string r
          else unsigned_of_string (c # r))"

fun py_int :: "json \<Rightarrow> py_error + int" where
  "py_int (JInt n) = Inr n"
| "py_int (JBool b) = Inr (if b then 1 else 0)"
| "py_int (JStr s) = (case int_of_string s of None \<Rightarrow> Inl ValueError | Some n \<Rightarrow> Inr n)"
| "py_int _ = Inl TypeError"

subsection \<open>True division\<close>

text \<open>
  \<^verbatim>\<open>a / b\<close> on two integers is true division: the result is a float, the double
  nearest to the quotient, ties going to the even mantissa; a quotient that rounds to
  \<open>2 ^ 1024\<close> or more raises \<^verbatim>\<open>OverflowError\<close>, and a quotient too small for the
  subnormal doubles rounds to zero. Whatever the size of the operands the result of
  CPython is correctly rounded, so it is a function of the quotient alone. A double is
  represented by its value, a rational; the two zeros are one value.

  \<open>bit_length n\<close> is the number of binary digits of a positive \<open>n\<close>.
\<close>

function bit_length :: "int \<Rightarrow> nat" where
  "bit_length n = (if n \<le> 0 then 0 else Suc (bit_length (n div 2)))"
  by pat_completeness auto

termination
  by (relation "measure nat") auto

declare bit_length.simps [simp del]

text \<open>
  \<open>floor_log2 a b\<close> is the exponent \<open>e\<close> with \<open>2 ^ e \<le> a / b < 2 ^ (e + 1)\<close>, for
  positive \<open>a\<close> and \<open>b\<close>: the difference of the bit lengths or one less.
\<close>

definition floor_log2 :: "int \<Rightarrow> int \<Rightarrow> int" where
  "floor_log2 a b =
     (let d = int (bit_length a) - int (bit_length b)
      in if (if 0 \<le> d then b * 2 ^ nat d \<le> a else b \<le> a * 2 ^ nat (- d)) then d else d - 1)"

text \<open>The integer nearest to \<open>n / d\<close> for a positive \<open>d\<close>, the even one of two.\<close>

definition round_half_even :: "int \<Rightarrow> int \<Rightarrow> int" where
  "round_half_even n d =
     (let q = n div d; r = n mod d
      in if 2 * r < d then q
         else if d < 2 * r then q + 1
         else if even q then q else q + 1)"

text \<open>
  A double is \<open>m * 2 ^ p\<close> with an integer \<open>m\<close> of at most 53 bits and \<open>- 1074 \<le> p\<close>.
  For a quotient in \<open>[2 ^ e, 2 ^ (e + 1))\<close> the doubles around it are the multiples of
  \<open>2 ^ (e - 52)\<close>, or of \<open>2 ^ (- 1074)\<close> in the subnormal range: this is the exponent
  \<open>p\<close>, and the mantissa is the quotient divided by \<open>2 ^ p\<close>, rounded.
\<close>

definition double_exponent :: "int \<Rightarrow> int \<Rightarrow> int" where
  "double_exponent n b = max (floor_log2 n b - 52) (- 1074)"

definition double_mantissa :: "int \<Rightarrow> int \<Rightarrow> int" where
  "double_mantissa n b =
     (let p = double_exponent n b
      in if 0 \<le> p then round_half_even n (b * 2 ^ nat p)
         else round_half_even (n * 2 ^ nat (- p)) b)"

text \<open>
  The double nearest to \<open>a / b\<close> for a positive \<open>b\<close>, or \<open>None\<close> when the rounded
  quotient is beyond the largest double (the mantissa may have been rounded up to
  \<open>2 ^ 53\<close>, which is the next power of two and a double as well unless it reaches
  \<open>2 ^ 1024\<close>).
\<close>

definition nearest_double :: "int \<Rightarrow> int \<Rightarrow> rat option" where
  "nearest_double a b =
     (if a = 0 then Some 0
      else
        let p = double_exponent \<bar>a\<bar> b;
            m = double_mantissa \<bar>a\<bar> b
        in if 0 \<le> p
           then (if 2 ^ 1024 \<le> m * 2 ^ nat p then None
                 else Some (of_int (sgn a * m * 2 ^ nat p)))
           else Some (of_int (sgn a * m) / of_int (2 ^ nat (- p))))"

text \<open>Line 156: \<^verbatim>\<open>total_views / len(videos)\<close>.\<close>

definition py_truediv :: "int \<Rightarrow> nat \<Rightarrow> py_error + rat" where
  "py_truediv a b =
     (if b = 0 then Inl ZeroDivisionError
      else case nearest_double a (int b) of
             None \<Rightarrow> Inl OverflowError
           | Some d \<Rightarrow> Inr d)"

subsection \<open>Dictionaries built by a comprehension\<close>

text \<open>
  The keys of a Python dict are compared with \<^verbatim>\<open>==\<close> and must be hashable:
  \<^verbatim>\<open>True == 1\<close> and \<^verbatim>\<open>False == 0\<close> are the same key, lists and dicts are not hashable.
\<close>

datatype key = KNone | KInt int | KStr string

fun py_key :: "json \<Rightarrow> py_error + key" where
  "py_key JNull = Inr KNone"
| "py_key (JBool b) = Inr (KInt (if b then 1 else 0))"
| "py_key (JInt n) = Inr (KInt n)"
| "py_key (JStr s) = Inr (KStr s)"
| "py_key _ = Inl TypeError"

text \<open>
  \<^verbatim>\<open>d[k] = v\<close>: a key already present keeps its place (dicts keep insertion order) and
  takes the new value; a new key goes to the end.
\<close>

fun dict_set :: "(key \<times> 'v) list \<Rightarrow> key \<Rightarrow> 'v \<Rightarrow> (key \<times> 'v) list" where
  "dict_set [] k v = [(k, v)]"
| "dict_set ((k', v') # d) k v =
     (if k' = k then (k', v) # d else (k', v') # dict_set d k v)"

text \<open>\<^verbatim>\<open>{key_of(x): x for x in xs}\<close>, started from the dict \<open>d\<close>.\<close>

fun dict_by :: "('v \<Rightarrow> py_error + key) \<Rightarrow> 'v list \<Rightarrow> (key \<times> 'v) list \<Rightarrow> py_error + (key \<times> 'v) list" where
  "dict_by key_of [] d = Inr d"
| "dict_by key_of (x # xs) d =
     (case key_of x of Inl e \<Rightarrow> Inl e | Inr k \<Rightarrow> dict_by key_of xs (dict_set d k x))"

definition dict_values :: "(key \<times> 'v) list \<Rightarrow> 'v list" where
  "dict_values d = map snd d"

section \<open>The HTTP client adapter (class \<^verbatim>\<open>TikTokAPI\<close>)\<close>

text \<open>
  Every method issues one GET request. What the platform answers is not under the
  program's control: a server is a function from the number of requests issued so far
  and the request to the outcome of \<^verbatim>\<open>requests.get\<close>, \<^verbatim>\<open>raise_for_status\<close> and
  \<^verbatim>\<open>response.json()\<close>, which is either a \<^verbatim>\<open>requests.RequestException\<close> or the decoded
  body. The state threaded through the program is the list of requests issued.
\<close>

datatype request =
    SearchUsers string nat nat
  | UserVideos json nat nat

datatype http_response = RequestException | Body json

type_synonym server = "nat \<Rightarrow> request \<Rightarrow> http_response"

type_synonym calls = "request list"

definition http_get :: "server \<Rightarrow> request \<Rightarrow> calls \<Rightarrow> http_response \<times> calls" where
  "http_get srv req st = (srv (length st) req, st @ [req])"

text \<open>
  \<^verbatim>\<open>search_users\<close>, lines 22 to 47: only \<^verbatim>\<open>requests.RequestException\<close> is caught, any
  other exception raised inside the \<^verbatim>\<open>try\<close> leaves the method.
\<close>

definition search_users_body :: "json \<Rightarrow> py_error + json" where
  "search_users_body data =
     (case py_contains ''userInfo'' data of
        Inl e \<Rightarrow> Inl e
      | Inr has_info \<Rightarrow>
          if \<not> has_info then Inr (JList [])
          else (case py_getitem data ''userInfo'' of
                  Inl e \<Rightarrow> Inl e
                | Inr info \<Rightarrow>
                    (case py_contains ''user_list'' info of
                       Inl e \<Rightarrow> Inl e
                     | Inr has_list \<Rightarrow>
                         if \<not> has_list then Inr (JList [])
                         else py_getitem info ''user_list'')))"

definition search_users :: "server \<Rightarrow> string \<Rightarrow> nat \<Rightarrow> nat \<Rightarrow> calls \<Rightarrow> (py_error + json) \<times> calls" where
  "search_users srv keyword count offset st =
     (case http_get srv (SearchUsers keyword count offset) st of
        (RequestException, st') \<Rightarrow> (Inr (JList []), st')
      | (Body data, st') \<Rightarrow> (search_users_body data, st'))"

text \<open>\<^verbatim>\<open>get_user_videos\<close>, lines 74 to 100.\<close>

definition get_user_videos_body :: "json \<Rightarrow> py_error + json" where
  "get_user_videos_body data =
     (case py_contains ''itemList'' data of
        Inl e \<Rightarrow> Inl e
      | Inr has_items \<Rightarrow>
          if \<not> has_items then Inr (JList [])
          else py_getitem data ''itemList'')"

definition get_user_videos :: "server \<Rightarrow> json \<Rightarrow> nat \<Rightarrow> nat \<Rightarrow> calls \<Rightarrow> (py_error + json) \<times> calls" where
  "get_user_videos srv sec_uid count cursor st =
     (case http_get srv (UserVideos sec_uid count cursor) st of
        (RequestException, st') \<Rightarrow> (Inr (JList []), st')
      | (Body data, st') \<Rightarrow> (get_user_videos_body data, st'))"

section \<open>The search aggregator (\<^verbatim>\<open>search_influencers_by_keyword\<close>)\<close>

text \<open>
  Lines 106 to 123. The two \<^verbatim>\<open>with ... as pbar\<close> lines (110 and 135) open a progress
  bar (the name of the constructor they call is missing in the file; they are read as
  \<^verbatim>\<open>with tqdm(total=..., desc=...) as pbar\<close>), \<^verbatim>\<open>pbar.update\<close> and \<^verbatim>\<open>print\<close> only
  display, and \<^verbatim>\<open>time.sleep\<close> only waits: none of them is part of the model. Each
  round either stops or adds at least one element to \<^verbatim>\<open>all_users\<close>, which is why the
  loop ends.
\<close>

function search_loop ::
  "server \<Rightarrow> string \<Rightarrow> int \<Rightarrow> json list \<Rightarrow> nat \<Rightarrow> calls \<Rightarrow> (py_error + json list) \<times> calls" where
  "search_loop srv keyword max_results all_users offset st =
     (if int (length all_users) < max_results then
        (case search_users srv keyword 30 offset st of
           (Inl e, st') \<Rightarrow> (Inl e, st')
         | (Inr users, st') \<Rightarrow>
             if \<not> py_truthy users then (Inr all_users, st')
             else (case py_iter users of
                     Inl e \<Rightarrow> (Inl e, st')
                   | Inr items \<Rightarrow>
                       search_loop srv keyword max_results (all_users @ items)
                         (offset + length items) st'))
      else (Inr all_users, st))"
  by pat_completeness auto

termination
proof (relation "measure (\<lambda>(srv, keyword, max_results, all_users, offset, st).
                   nat (max_results - int (length all_users)))", goal_cases)
  case 1
  show ?case by simp
next
  case (2 srv keyword max_results all_users offset st x y users items)
  then have "items \<noteq> []"
    by (cases users) auto
  with 2 show ?case
    by simp
qed

declare search_loop.simps [simp del]

text \<open>Line 126: the key of the comprehension is \<^verbatim>\<open>user["user"]["secUid"]\<close>.\<close>

definition user_key :: "json \<Rightarrow> py_error + key" where
  "user_key user =
     (case py_getitem user ''user'' of
        Inl e \<Rightarrow> Inl e
      | Inr u \<Rightarrow> (case py_getitem u ''secUid'' of Inl e \<Rightarrow> Inl e | Inr sec_uid \<Rightarrow> py_key sec_uid))"

text \<open>Lines 125 to 129.\<close>

definition unique_users :: "json list \<Rightarrow> py_error + json list" where
  "unique_users all_users =
     (case dict_by user_key all_users [] of Inl e \<Rightarrow> Inl e | Inr d \<Rightarrow> Inr (dict_values d))"

definition search_influencers_by_keyword ::
  "server \<Rightarrow> string \<Rightarrow> int \<Rightarrow> calls \<Rightarrow> (py_error + json list) \<times> calls" where
  "search_influencers_by_keyword srv keyword max_results st =
     (case search_loop srv keyword max_results [] 0 st of
        (Inl e, st') \<Rightarrow> (Inl e, st')
      | (Inr all_users, st') \<Rightarrow> (unique_users all_users, st'))"

section \<open>The qualification filter (\<^verbatim>\<open>filter_influencers\<close>)\<close>

text \<open>
  The dict built at lines 160 to 172. Its \<^verbatim>\<open>profileUrl\<close> entry is the user name
  formatted into a URL: it is determined by \<open>username\<close> and is not a field here.
  \<open>avgViews\<close> is the float of line 156, given by its value.
\<close>

record influencer =
  username :: json
  displayName :: json
  bio :: json
  followerCount :: int
  followingCount :: int
  videoCount :: int
  avgViews :: rat
  verified :: json
  secUid :: json
  niche :: string

text \<open>Line 140: \<^verbatim>\<open>int(user.get("followerCount", 0))\<close>, and its two siblings of lines 165 and 166.\<close>

definition int_field :: "json \<Rightarrow> string \<Rightarrow> py_error + int" where
  "int_field user k = (case py_get user k (JInt 0) of Inl e \<Rightarrow> Inl e | Inr v \<Rightarrow> py_int v)"

text \<open>Line 155: \<^verbatim>\<open>int(video["stats"]["playCount"])\<close> and the \<^verbatim>\<open>sum\<close> over the videos.\<close>

definition play_count :: "json \<Rightarrow> py_error + int" where
  "play_count video =
     (case py_getitem video ''stats'' of
        Inl e \<Rightarrow> Inl e
      | Inr stats \<Rightarrow> (case py_getitem stats ''playCount'' of Inl e \<Rightarrow> Inl e | Inr pc \<Rightarrow> py_int pc))"

fun sum_play_counts :: "json list \<Rightarrow> int \<Rightarrow> py_error + int" where
  "sum_play_counts [] acc = Inr acc"
| "sum_play_counts (video # videos) acc =
     (case play_count video of Inl e \<Rightarrow> Inl e | Inr n \<Rightarrow> sum_play_counts videos (acc + n))"

text \<open>Lines 155 and 156.\<close>

definition average_views :: "json \<Rightarrow> py_error + rat" where
  "average_views videos =
     (case py_iter videos of
        Inl e \<Rightarrow> Inl e
      | Inr vs \<Rightarrow>
          (case sum_play_counts vs 0 of
             Inl e \<Rightarrow> Inl e
           | Inr total_views \<Rightarrow> py_truediv total_views (length vs)))"

text \<open>Lines 160 to 172.\<close>

definition influencer_data ::
  "json \<Rightarrow> json \<Rightarrow> json \<Rightarrow> int \<Rightarrow> rat \<Rightarrow> string \<Rightarrow> py_error + influencer" where
  "influencer_data user uname sec_uid follower_count avg_views nich =
     (case py_get user ''nickname'' (JStr []) of
        Inl e \<Rightarrow> Inl e
      | Inr nickname \<Rightarrow>
     (case py_get user ''signature'' (JStr []) of
        Inl e \<Rightarrow> Inl e
      | Inr signature \<Rightarrow>
     (case int_field user ''followingCount'' of
        Inl e \<Rightarrow> Inl e
      | Inr following \<Rightarrow>
     (case int_field user ''videoCount'' of
        Inl e \<Rightarrow> Inl e
      | Inr vcount \<Rightarrow>
     (case py_get user ''verified'' (JBool False) of
        Inl e \<Rightarrow> Inl e
      | Inr verif \<Rightarrow>
          Inr \<lparr>username = uname, displayName = nickname, bio = signature,
               followerCount = follower_count, followingCount = following,
               videoCount = vcount, avgViews = avg_views, verified = verif,
               secUid = sec_uid, niche = nich\<rparr>)))))"

text \<open>
  Lines 148 to 177: what happens to a candidate that passed the follower check. The
  comparison of line 159 is between a float and an integer, which Python compares by
  their values, without rounding the integer.
\<close>

definition analyze_videos ::
  "server \<Rightarrow> int \<Rightarrow> string \<Rightarrow> json \<Rightarrow> json \<Rightarrow> json \<Rightarrow> int \<Rightarrow> influencer list \<Rightarrow> calls
     \<Rightarrow> (py_error + influencer list) \<times> calls" where
  "analyze_videos srv min_avg_views nich user uname sec_uid follower_count qualified st =
     (case get_user_videos srv sec_uid 30 0 st of
        (Inl e, st') \<Rightarrow> (Inl e, st')
      | (Inr videos, st') \<Rightarrow>
          if \<not> py_truthy videos then (Inr qualified, st')
          else (case average_views videos of
                  Inl e \<Rightarrow> (Inl e, st')
                | Inr avg_views \<Rightarrow>
                    if avg_views \<ge> of_int min_avg_views then
                      (case influencer_data user uname sec_uid follower_count avg_views nich of
                         Inl e \<Rightarrow> (Inl e, st')
                       | Inr entry \<Rightarrow> (Inr (qualified @ [entry]), st'))
                    else (Inr qualified, st')))"

text \<open>Lines 137 to 140: the fields read from a candidate before anything is checked.\<close>

definition candidate_fields :: "json \<Rightarrow> py_error + json \<times> json \<times> json \<times> int" where
  "candidate_fields user_data =
     (case py_getitem user_data ''user'' of
        Inl e \<Rightarrow> Inl e
      | Inr user \<Rightarrow>
     (case py_getitem user ''uniqueId'' of
        Inl e \<Rightarrow> Inl e
      | Inr uname \<Rightarrow>
     (case py_getitem user ''secUid'' of
        Inl e \<Rightarrow> Inl e
      | Inr sec_uid \<Rightarrow>
     (case int_field user ''followerCount'' of
        Inl e \<Rightarrow> Inl e
      | Inr follower_count \<Rightarrow> Inr (user, uname, sec_uid, follower_count)))))"

text \<open>Lines 137 to 177: one round of the \<^verbatim>\<open>for\<close> loop.\<close>

definition filter_body ::
  "server \<Rightarrow> int \<Rightarrow> int \<Rightarrow> string \<Rightarrow> json \<Rightarrow> influencer list \<Rightarrow> calls
     \<Rightarrow> (py_error + influencer list) \<times> calls" where
  "filter_body srv max_followers min_avg_views nich user_data qualified st =
     (case candidate_fields user_data of
        Inl e \<Rightarrow> (Inl e, st)
      | Inr (user, uname, sec_uid, follower_count) \<Rightarrow>
          if follower_count > max_followers then (Inr qualified, st)
          else analyze_videos srv min_avg_views nich user uname sec_uid follower_count
                 qualified st)"

fun filter_loop ::
  "server \<Rightarrow> int \<Rightarrow> int \<Rightarrow> string \<Rightarrow> json list \<Rightarrow> influencer list \<Rightarrow> calls
     \<Rightarrow> (py_error + influencer list) \<times> calls" where
  "filter_loop srv max_followers min_avg_views nich [] qualified st = (Inr qualified, st)"
| "filter_loop srv max_followers min_avg_views nich (user_data # users) qualified st =
     (case filter_body srv max_followers min_avg_views nich user_data qualified st of
        (Inl e, st') \<Rightarrow> (Inl e, st')
      | (Inr qualified', st') \<Rightarrow>
          filter_loop srv max_followers min_avg_views nich users qualified' st')"

definition filter_influencers ::
  "server \<Rightarrow> json list \<Rightarrow> int \<Rightarrow> int \<Rightarrow> string \<Rightarrow> calls
     \<Rightarrow> (py_error + influencer list) \<times> calls" where
  "filter_influencers srv users max_followers min_avg_views nich st =
     filter_loop srv max_followers min_avg_views nich users [] st"

section \<open>The multi-keyword orchestrator (\<^verbatim>\<open>find_tiktok_influencers\<close>)\<close>

text \<open>Lines 189 to 199. The session token only changes a request header.\<close>

fun keyword_loop ::
  "server \<Rightarrow> int \<Rightarrow> int \<Rightarrow> int \<Rightarrow> string list \<Rightarrow> influencer list \<Rightarrow> calls
     \<Rightarrow> (py_error + influencer list) \<times> calls" where
  "keyword_loop srv max_followers min_avg_views results_per_keyword [] all_influencers st =
     (Inr all_influencers, st)"
| "keyword_loop srv max_followers min_avg_views results_per_keyword (keyword # keywords)
       all_influencers st =
     (case search_influencers_by_keyword srv keyword results_per_keyword st of
        (Inl e, st1) \<Rightarrow> (Inl e, st1)
      | (Inr users, st1) \<Rightarrow>
          (case filter_influencers srv users max_followers min_avg_views keyword st1 of
             (Inl e, st2) \<Rightarrow> (Inl e, st2)
           | (Inr qualified, st2) \<Rightarrow>
               keyword_loop srv max_followers min_avg_views results_per_keyword keywords
                 (all_influencers @ qualified) st2))"

text \<open>Lines 201 to 203: the key of the comprehension is \<^verbatim>\<open>inf["username"]\<close>.\<close>

definition influencer_key :: "influencer \<Rightarrow> py_error + key" where
  "influencer_key entry = py_key (username entry)"

definition unique_influencers :: "influencer list \<Rightarrow> py_error + influencer list" where
  "unique_influencers all_influencers =
     (case dict_by influencer_key all_influencers [] of
        Inl e \<Rightarrow> Inl e
      | Inr d \<Rightarrow> Inr (dict_values d))"

definition find_tiktok_influencers ::
  "server \<Rightarrow> string list \<Rightarrow> int \<Rightarrow> int \<Rightarrow> int \<Rightarrow> calls
     \<Rightarrow> (py_error + influencer list) \<times> calls" where
  "find_tiktok_influencers srv keywords max_followers min_avg_views results_per_keyword st =
     (case keyword_loop srv max_followers min_avg_views results_per_keyword keywords [] st of
        (Inl e, st') \<Rightarrow> (Inl e, st')
      | (Inr all_influencers, st') \<Rightarrow> (unique_influencers all_influencers, st'))"

section \<open>Example data\<close>

text \<open>
  Records and servers on which the theorems below are instantiated: a candidate as the
  search endpoint lists it, a video as the video endpoint lists it, and the bodies of the
  two endpoints.
\<close>

definition user_record :: "string \<Rightarrow> int \<Rightarrow> json" where
  "user_record name followers =
     JObj [(''user'', JObj [(''uniqueId'', JStr name), (''secUid'', JStr name),
                            (''followerCount'', JInt followers)])]"

definition video_record :: "int \<Rightarrow> json" where
  "video_record plays = JObj [(''stats'', JObj [(''playCount'', JInt plays)])]"

definition search_page :: "json list \<Rightarrow> http_response" where
  "search_page users = Body (JObj [(''userInfo'', JObj [(''user_list'', JList users)])])"

definition video_page :: "json list \<Rightarrow> http_response" where
  "video_page videos = Body (JObj [(''itemList'', JList videos)])"

definition demo_server :: server where
  "demo_server i req =
     (case req of
        SearchUsers keyword count offset \<Rightarrow>
          if offset = 0
          then search_page [user_record ''a'' 100, user_record ''b'' 200, user_record ''c'' 999999]
          else search_page []
      | UserVideos sec_uid count cursor \<Rightarrow>
          if sec_uid = JStr ''a'' then video_page [video_record 50000, video_record 40000, video_record 60000]
          else if sec_uid = JStr ''b'' then video_page []
          else RequestException)"

definition null_server :: server where
  "null_server i req =
     (case req of
        SearchUsers keyword count offset \<Rightarrow> Body (JObj [(''userInfo'', JNull)])
      | UserVideos sec_uid count cursor \<Rightarrow> Body JNull)"

definition silent_server :: server where
  "silent_server i req = RequestException"

definition numbered_user :: "nat \<Rightarrow> json" where
  "numbered_user n =
     JObj [(''user'', JObj [(''uniqueId'', JInt (int n)), (''secUid'', JInt (int n))])]"

definition full_page_server :: server where
  "full_page_server i req =
     (case req of
        SearchUsers keyword count offset \<Rightarrow> search_page (map (\<lambda>k. numbered_user (offset + k)) [0..<count])
      | UserVideos sec_uid count cursor \<Rightarrow> video_page [])"

definition qualified_a :: "string \<Rightarrow> influencer" where
  "qualified_a nich =
     \<lparr>username = JStr ''a'', displayName = JStr [], bio = JStr [], followerCount = 100,
      followingCount = 0, videoCount = 0, avgViews = 50000, verified = JBool False,
      secUid = JStr ''a'', niche = nich\<rparr>"

text \<open>
  A server whose search depends on the keyword: \<open>tech\<close> lists the users \<open>a\<close> and
  \<open>d\<close>, every other keyword lists \<open>a\<close> alone.
\<close>

definition niche_server :: server where
  "niche_server i req =
     (case req of
        SearchUsers keyword count offset \<Rightarrow>
          if offset \<noteq> 0 then search_page []
          else if keyword = ''tech'' then search_page [user_record ''a'' 100, user_record ''d'' 300]
          else search_page [user_record ''a'' 100]
      | UserVideos sec_uid count cursor \<Rightarrow>
          if sec_uid = JStr ''a'' then video_page [video_record 50000, video_record 40000, video_record 60000]
          else if sec_uid = JStr ''d'' then video_page [video_record 70000, video_record 90000]
          else RequestException)"

definition qualified_d :: "string \<Rightarrow> influencer" where
  "qualified_d nich =
     \<lparr>username = JStr ''d'', displayName = JStr [], bio = JStr [], followerCount = 300,
      followingCount = 0, videoCount = 0, avgViews = 80000, verified = JBool False,
      secUid = JStr ''d'', niche = nich\<rparr>"

section \<open>The float of a quotient\<close>

text \<open>
  What \<open>nearest_double\<close> returns is within half a unit in the last place of the
  quotient, is the quotient itself when that is an integer below \<open>2 ^ 53\<close> in magnitude,
  is below \<open>2 ^ 1024\<close> in magnitude, and exists whenever the dividend is below
  \<open>2 ^ 1023\<close> in magnitude.
\<close>

lemma bit_length_bounds: "0 < n \<Longrightarrow> 2 ^ (bit_length n - 1) \<le> n \<and> n < 2 ^ bit_length n"
proof (induction n rule: bit_length.induct)
  case (1 n)
  show ?case
  proof (cases "n div 2 \<le> 0")
    case True
    with "1.prems" have "n = 1"
      by presburger
    then show ?thesis
      by (simp add: bit_length.simps)
  next
    case False
    with "1.IH" "1.prems"
    have ih: "2 ^ (bit_length (n div 2) - 1) \<le> n div 2" "n div 2 < 2 ^ bit_length (n div 2)"
      by simp_all
    from False have pos: "0 < bit_length (n div 2)"
      by (simp add: bit_length.simps)
    have bl: "bit_length n = Suc (bit_length (n div 2))"
      using "1.prems" by (subst bit_length.simps) simp
    from ih(1) have "2 * 2 ^ (bit_length (n div 2) - 1) \<le> n"
      by linarith
    moreover from pos have "(2 :: int) * 2 ^ (bit_length (n div 2) - 1) = 2 ^ bit_length (n div 2)"
      by (cases "bit_length (n div 2)") simp_all
    ultimately have lower: "2 ^ bit_length (n div 2) \<le> n"
      by simp
    from ih(2) have upper: "n < 2 * 2 ^ bit_length (n div 2)"
      by linarith
    from lower upper bl show ?thesis
      by simp
  qed
qed

lemma bit_length_pos: "0 < n \<Longrightarrow> 0 < bit_length n"
  by (subst bit_length.simps) simp

lemma round_half_even_int:
  assumes "0 < d"
  shows "2 * \<bar>round_half_even n d * d - n\<bar> \<le> d"
proof -
  define q r where "q = n div d" and "r = n mod d"
  have n: "n = q * d + r"
    by (simp add: q_def r_def)
  have r: "0 \<le> r" "r < d"
    using assms by (simp_all add: r_def)
  have m: "round_half_even n d =
            (if 2 * r < d then q else if d < 2 * r then q + 1 else if even q then q else q + 1)"
    by (simp add: round_half_even_def q_def r_def)
  have "(q + 1) * d - n = d - r" "q * d - n = - r"
    by (simp_all add: n algebra_simps)
  with r show ?thesis
    unfolding m by (auto simp: abs_if)
qed

lemma round_half_even_near:
  assumes "0 < d"
  shows "\<bar>of_int (round_half_even n d) - (of_int n / of_int d :: rat)\<bar> \<le> 1 / 2"
proof -
  let ?m = "round_half_even n d"
  from assms have d: "(0 :: rat) < of_int d"
    by simp
  have "of_int ?m - (of_int n / of_int d :: rat) = of_int (?m * d - n) / of_int d"
    using assms by (simp add: field_simps)
  then have "\<bar>of_int ?m - (of_int n / of_int d :: rat)\<bar> = of_int \<bar>?m * d - n\<bar> / of_int d"
    using d by (simp add: abs_divide)
  also from round_half_even_int [OF assms, of n]
  have "(of_int (2 * \<bar>?m * d - n\<bar>) :: rat) \<le> of_int d"
    by (simp only: of_int_le_iff)
  then have "(of_int \<bar>?m * d - n\<bar> / of_int d :: rat) \<le> 1 / 2"
    using d by (simp add: field_simps)
  finally show ?thesis .
qed

lemma round_half_even_exact: "0 < d \<Longrightarrow> round_half_even (k * d) d = k"
  by (simp add: round_half_even_def)

lemma round_half_even_nonneg: "0 < d \<Longrightarrow> 0 \<le> n \<Longrightarrow> 0 \<le> round_half_even n d"
  by (auto simp: round_half_even_def Let_def pos_imp_zdiv_nonneg_iff)

lemma powi_nat: "(2 :: rat) powi (int k) = of_int (2 ^ k)"
  by (simp add: power_int_def)

lemma bit_length_powi:
  assumes "0 < n"
  shows "(2 :: rat) powi (int (bit_length n) - 1) \<le> of_int n"
    and "(of_int n :: rat) < 2 powi int (bit_length n)"
proof -
  from bit_length_pos [OF assms] obtain k where k: "bit_length n = Suc k"
    by (cases "bit_length n") simp_all
  from bit_length_bounds [OF assms] k have lo: "2 ^ k \<le> n" and hi: "n < 2 ^ Suc k"
    by simp_all
  have "int (bit_length n) - 1 = int k"
    by (simp add: k)
  then have "(2 :: rat) powi (int (bit_length n) - 1) = of_int (2 ^ k)"
    by (simp only: powi_nat)
  also from lo have "\<dots> \<le> of_int n"
    by (simp only: of_int_le_iff)
  finally show "(2 :: rat) powi (int (bit_length n) - 1) \<le> of_int n" .
  from hi have "(of_int n :: rat) < of_int (2 ^ Suc k)"
    by (simp only: of_int_less_iff)
  then show "(of_int n :: rat) < 2 powi int (bit_length n)"
    by (simp only: k powi_nat)
qed

lemma le_scaled: "0 < (y :: rat) \<Longrightarrow> 0 < c \<Longrightarrow> y \<le> x * c \<longleftrightarrow> 1 / c \<le> x / y"
  by (simp add: field_simps)

lemma floor_log2_test:
  assumes "0 < b"
  shows "(if 0 \<le> d then b * 2 ^ nat d \<le> a else b \<le> a * 2 ^ nat (- d))
           \<longleftrightarrow> (2 :: rat) powi d \<le> of_int a / of_int b"
proof -
  from assms have b: "(0 :: rat) < of_int b"
    by simp
  show ?thesis
  proof (cases "0 \<le> d")
    case True
    then have p: "(2 :: rat) powi d = of_int (2 ^ nat d)"
      by (simp add: power_int_def)
    have "b * 2 ^ nat d \<le> a \<longleftrightarrow> (of_int (b * 2 ^ nat d) :: rat) \<le> of_int a"
      by (simp only: of_int_le_iff)
    also have "\<dots> \<longleftrightarrow> of_int (2 ^ nat d) * (of_int b :: rat) \<le> of_int a"
      by (simp only: of_int_mult mult.commute)
    also have "\<dots> \<longleftrightarrow> (of_int (2 ^ nat d) :: rat) \<le> of_int a / of_int b"
      using b by (simp only: pos_le_divide_eq)
    finally show ?thesis
      using True by (simp only: p if_True)
  next
    case False
    then have p: "(2 :: rat) powi d = 1 / of_int (2 ^ nat (- d))"
      by (simp add: power_int_def field_simps)
    have two: "(0 :: rat) < of_int (2 ^ nat (- d))"
      by simp
    have "b \<le> a * 2 ^ nat (- d) \<longleftrightarrow> (of_int b :: rat) \<le> of_int (a * 2 ^ nat (- d))"
      by (simp only: of_int_le_iff)
    also have "\<dots> \<longleftrightarrow> (of_int b :: rat) \<le> of_int a * of_int (2 ^ nat (- d))"
      by (simp only: of_int_mult)
    also have "\<dots> \<longleftrightarrow> (1 :: rat) / of_int (2 ^ nat (- d)) \<le> of_int a / of_int b"
      using b two by (rule le_scaled)
    finally show ?thesis
      using False by (simp only: p if_False)
  qed
qed

lemma floor_log2_bounds:
  assumes "0 < a" and "0 < b"
  shows "2 powi floor_log2 a b \<le> (of_int a / of_int b :: rat)
       \<and> (of_int a / of_int b :: rat) < 2 powi (floor_log2 a b + 1)"
proof -
  define A B where "A = int (bit_length a)" and "B = int (bit_length b)"
  note a = bit_length_powi [OF assms(1), folded A_def]
  note b = bit_length_powi [OF assms(2), folded B_def]
  have pos: "(0 :: rat) < 2 powi k" for k
    by simp
  have up: "(of_int a / of_int b :: rat) < 2 powi (A - B + 1)"
  proof -
    have "(of_int a / of_int b :: rat) < 2 powi A / 2 powi (B - 1)"
    proof (rule frac_less)
      from assms(1) show "(0 :: rat) \<le> of_int a" by simp
      from a(2) show "(of_int a :: rat) < 2 powi A" .
      show "(0 :: rat) < 2 powi (B - 1)" by simp
      from b(1) show "(2 :: rat) powi (B - 1) \<le> of_int b" .
    qed
    also have "\<dots> = 2 powi (A - (B - 1))"
      by (simp add: power_int_diff)
    finally show ?thesis
      by (simp add: algebra_simps)
  qed
  have low: "(2 :: rat) powi (A - B - 1) \<le> of_int a / of_int b"
  proof -
    have "(2 :: rat) powi (A - 1 - B) = 2 powi (A - 1) / 2 powi B"
      by (simp add: power_int_diff)
    also have "\<dots> \<le> of_int a / of_int b"
    proof (rule frac_le)
      from assms(1) show "(0 :: rat) \<le> of_int a" by simp
      from a(1) show "(2 :: rat) powi (A - 1) \<le> of_int a" .
      from assms(2) show "(0 :: rat) < of_int b" by simp
      from b(2) show "(of_int b :: rat) \<le> 2 powi B" by simp
    qed
    finally show ?thesis
      by (simp add: algebra_simps)
  qed
  have fl: "floor_log2 a b =
              (if (2 :: rat) powi (A - B) \<le> of_int a / of_int b then A - B else A - B - 1)"
    unfolding floor_log2_def Let_def A_def B_def
    by (simp only: floor_log2_test [OF assms(2)])
  show ?thesis
  proof (cases "(2 :: rat) powi (A - B) \<le> of_int a / of_int b")
    case True
    with up show ?thesis
      by (simp add: fl)
  next
    case False
    with low show ?thesis
      by (simp add: fl not_le)
  qed
qed

lemma powi_neg: "p < 0 \<Longrightarrow> (2 :: rat) powi p = 1 / of_int (2 ^ nat (- p))"
  by (simp add: power_int_def field_simps)

lemma powi_pos: "0 \<le> p \<Longrightarrow> (2 :: rat) powi p = of_int (2 ^ nat p)"
  by (simp add: power_int_def)

lemma double_mantissa_near:
  assumes "0 < n" and "0 < b"
  shows "\<bar>of_int (double_mantissa n b) - of_int n / of_int b / 2 powi double_exponent n b\<bar>
           \<le> (1 / 2 :: rat)"
proof -
  define p where "p = double_exponent n b"
  show ?thesis
  proof (cases "0 \<le> p")
    case True
    from assms(2) have d: "0 < b * 2 ^ nat p"
      by simp
    have m: "double_mantissa n b = round_half_even n (b * 2 ^ nat p)"
      using True by (simp add: double_mantissa_def p_def)
    have "(of_int n / of_int b / 2 powi p :: rat) = of_int n / of_int (b * 2 ^ nat p)"
      by (simp only: powi_pos [OF True] of_int_mult divide_divide_eq_left)
    with round_half_even_near [OF d, of n] show ?thesis
      by (simp only: m p_def [symmetric])
  next
    case False
    then have neg: "p < 0"
      by simp
    have m: "double_mantissa n b = round_half_even (n * 2 ^ nat (- p)) b"
      using False by (simp add: double_mantissa_def p_def)
    have "(of_int n / of_int b / 2 powi p :: rat) = of_int (n * 2 ^ nat (- p)) / of_int b"
      by (simp only: powi_neg [OF neg] of_int_mult) simp
    with round_half_even_near [OF assms(2), of "n * 2 ^ nat (- p)"] show ?thesis
      by (simp only: m p_def [symmetric])
  qed
qed

lemma double_value_near:
  assumes "0 < n" and "0 < b"
  shows "\<bar>of_int (double_mantissa n b) * 2 powi double_exponent n b - of_int n / of_int b\<bar>
           \<le> (2 powi double_exponent n b / 2 :: rat)"
proof -
  let ?p = "double_exponent n b" and ?m = "double_mantissa n b"
  have pos: "(0 :: rat) < 2 powi ?p"
    by simp
  have "of_int ?m * 2 powi ?p - (of_int n / of_int b :: rat) =
          2 powi ?p * (of_int ?m - of_int n / of_int b / 2 powi ?p)"
    using pos by (simp add: field_simps)
  then have "\<bar>of_int ?m * 2 powi ?p - (of_int n / of_int b :: rat)\<bar> =
          2 powi ?p * \<bar>of_int ?m - of_int n / of_int b / 2 powi ?p\<bar>"
    using pos by (simp only: abs_mult abs_of_pos)
  also have "\<dots> \<le> 2 powi ?p * (1 / 2)"
    using double_mantissa_near [OF assms] pos by (intro mult_left_mono) simp_all
  finally show ?thesis
    by simp
qed

lemma half_ulp:
  assumes "0 < n" and "0 < b"
  shows "(2 powi double_exponent n b / 2 :: rat) \<le> max (of_int n / of_int b / 2 ^ 53) (1 / 2 ^ 1075)"
proof (cases "- 1074 \<le> floor_log2 n b - 52")
  case True
  then have p: "double_exponent n b = floor_log2 n b - 52"
    by (simp add: double_exponent_def)
  have "(2 :: rat) powi (floor_log2 n b - 52) = 2 powi floor_log2 n b / 2 powi 52"
    by (simp add: power_int_diff)
  then have "(2 powi double_exponent n b / 2 :: rat) = 2 powi floor_log2 n b / 2 ^ 53"
    by (simp add: p)
  also from floor_log2_bounds [OF assms] have "\<dots> \<le> of_int n / of_int b / 2 ^ 53"
    by (simp add: divide_right_mono)
  finally show ?thesis
    by simp
next
  case False
  then have p: "double_exponent n b = - 1074"
    by (simp add: double_exponent_def)
  have "(2 powi double_exponent n b / 2 :: rat) = 1 / 2 ^ 1075"
    by (simp add: p power_int_minus field_simps)
  then show ?thesis
    by simp
qed

lemma nearest_double_value:
  assumes "a \<noteq> 0" and "nearest_double a b = Some d"
  shows "d = of_int (sgn a) * (of_int (double_mantissa \<bar>a\<bar> b) * 2 powi double_exponent \<bar>a\<bar> b)"
proof -
  define p m where "p = double_exponent \<bar>a\<bar> b" and "m = double_mantissa \<bar>a\<bar> b"
  show ?thesis
  proof (cases "0 \<le> p")
    case True
    with assms have "d = of_int (sgn a * m * 2 ^ nat p)"
      by (simp add: nearest_double_def Let_def p_def m_def split: if_splits)
    then show ?thesis
      by (simp only: powi_pos [OF True] of_int_mult p_def [symmetric] m_def [symmetric] mult.assoc)
  next
    case False
    then have neg: "p < 0"
      by simp
    from False assms have "d = of_int (sgn a * m) / of_int (2 ^ nat (- p))"
      by (simp add: nearest_double_def Let_def p_def m_def)
    then show ?thesis
      by (simp only: powi_neg [OF neg] of_int_mult p_def [symmetric] m_def [symmetric]) simp
  qed
qed

lemma nearest_double_tolerance:
  assumes "0 < b" and "nearest_double a b = Some d"
  shows "\<bar>d - of_int a / of_int b\<bar> \<le> max (\<bar>of_int a / of_int b\<bar> / 2 ^ 53) (1 / 2 ^ 1075)"
proof (cases "a = 0")
  case True
  with assms(2) show ?thesis
    by (simp add: nearest_double_def)
next
  case False
  then have n: "0 < \<bar>a\<bar>"
    by simp
  define v :: rat where "v = of_int (double_mantissa \<bar>a\<bar> b) * 2 powi double_exponent \<bar>a\<bar> b"
  define q :: rat where "q = of_int \<bar>a\<bar> / of_int b"
  from assms(1) have q: "\<bar>of_int a / of_int b :: rat\<bar> = q"
    by (simp add: q_def abs_divide)
  have "(of_int a :: rat) = of_int (sgn a * \<bar>a\<bar>)"
    by (simp only: mult_sgn_abs)
  then have a: "(of_int a / of_int b :: rat) = of_int (sgn a) * q"
    by (simp only: q_def of_int_mult times_divide_eq_right)
  from nearest_double_value [OF False assms(2)] have "d = of_int (sgn a) * v"
    by (simp only: v_def)
  then have "d - of_int a / of_int b = of_int (sgn a) * (v - q)"
    by (simp only: a right_diff_distrib)
  moreover from False have "\<bar>of_int (sgn a) :: rat\<bar> = 1"
    by (simp add: sgn_if)
  ultimately have "\<bar>d - of_int a / of_int b\<bar> = \<bar>v - q\<bar>"
    by (simp add: abs_mult)
  also from double_value_near [OF n assms(1)] half_ulp [OF n assms(1)]
  have "\<bar>v - q\<bar> \<le> max (q / 2 ^ 53) (1 / 2 ^ 1075)"
    unfolding v_def q_def by (rule order_trans)
  finally show ?thesis
    by (simp only: q)
qed

lemma double_mantissa_bound:
  assumes "0 < n" and "0 < b"
  shows "0 \<le> double_mantissa n b" and "double_mantissa n b \<le> 2 ^ 53"
proof -
  define p e where "p = double_exponent n b" and "e = floor_log2 n b"
  define q :: rat where "q = of_int n / of_int b"
  show "0 \<le> double_mantissa n b"
    using assms by (simp add: double_mantissa_def Let_def round_half_even_nonneg)
  have "e + 1 - p \<le> 53"
    by (simp add: p_def e_def double_exponent_def)
  then have "(2 :: rat) powi (e + 1 - p) \<le> 2 powi 53"
    by (intro power_int_increasing) simp_all
  moreover from floor_log2_bounds [OF assms] have "q < 2 powi (e + 1)"
    by (simp add: q_def e_def)
  then have "q / 2 powi p < 2 powi (e + 1) / 2 powi p"
    by (rule divide_strict_right_mono) simp
  moreover have "(2 :: rat) powi (e + 1) / 2 powi p = 2 powi (e + 1 - p)"
    by (simp add: power_int_diff)
  ultimately have small: "q / 2 powi p < 2 ^ 53"
    by simp
  from double_mantissa_near [OF assms]
  have near: "\<bar>of_int (double_mantissa n b) - q / 2 powi p\<bar> \<le> 1 / 2"
    by (simp only: q_def p_def)
  from near small have "(of_int (double_mantissa n b) :: rat) < 2 ^ 53 + 1"
    by linarith
  then have "(of_int (double_mantissa n b) :: rat) < of_int (2 ^ 53 + 1)"
    by simp
  then have "double_mantissa n b < 2 ^ 53 + 1"
    by (simp only: of_int_less_iff)
  then show "double_mantissa n b \<le> 2 ^ 53"
    by simp
qed

lemma nearest_double_finite:
  assumes "0 < b" and "nearest_double a b = Some d"
  shows "\<bar>d\<bar> < 2 ^ 1024"
proof (cases "a = 0")
  case True
  with assms(2) show ?thesis
    by (simp add: nearest_double_def)
next
  case False
  then have n: "0 < \<bar>a\<bar>"
    by simp
  define p m where "p = double_exponent \<bar>a\<bar> b" and "m = double_mantissa \<bar>a\<bar> b"
  note m = double_mantissa_bound [OF n assms(1), folded m_def]
  from False have sign: "\<bar>of_int (sgn a) :: rat\<bar> = 1"
    by (simp add: sgn_if)
  from m(1) have mpos: "(0 :: rat) \<le> of_int m"
    by simp
  from nearest_double_value [OF False assms(2)] have "d = of_int (sgn a) * (of_int m * 2 powi p)"
    by (simp only: p_def m_def)
  then have "\<bar>d\<bar> = \<bar>of_int (sgn a) :: rat\<bar> * (\<bar>of_int m\<bar> * \<bar>2 powi p\<bar>)"
    by (simp only: abs_mult)
  with sign mpos have d: "\<bar>d\<bar> = of_int m * 2 powi p"
    by simp
  show ?thesis
  proof (cases "0 \<le> p")
    case True
    with False assms(2) have "m * 2 ^ nat p < 2 ^ 1024"
      by (simp add: nearest_double_def Let_def p_def m_def split: if_splits)
    then have "(of_int (m * 2 ^ nat p) :: rat) < of_int (2 ^ 1024)"
      by (simp only: of_int_less_iff)
    then show ?thesis
      by (simp add: d powi_pos [OF True])
  next
    case False
    then have "(2 :: rat) powi p \<le> 2 powi 0"
      by (intro power_int_increasing) simp_all
    then have "(2 :: rat) powi p \<le> 1"
      by simp
    then have "of_int m * 2 powi p \<le> (of_int m :: rat) * 1"
      using mpos by (rule mult_left_mono)
    also from m(2) have "(of_int m :: rat) * 1 \<le> of_int (2 ^ 53)"
      by (simp only: mult_1_right of_int_le_iff)
    also have "(of_int (2 ^ 53) :: rat) < 2 ^ 1024"
      by simp
    finally show ?thesis
      by (simp only: d)
  qed
qed

lemma nearest_double_exact:
  assumes "0 < b" and "\<bar>k\<bar> < 2 ^ 53"
  shows "nearest_double (k * b) b = Some (of_int k)"
proof (cases "k = 0")
  case True
  then show ?thesis
    by (simp add: nearest_double_def)
next
  case False
  define n where "n = \<bar>k * b\<bar>"
  from assms(1) False have n: "n = \<bar>k\<bar> * b" "0 < n"
    by (simp_all add: n_def abs_mult)
  define p where "p = double_exponent n b"
  from assms(1) have q: "(of_int n / of_int b :: rat) = of_int \<bar>k\<bar>"
    by (simp add: n(1))
  from floor_log2_bounds [OF n(2) assms(1)] have "(2 :: rat) powi floor_log2 n b \<le> of_int \<bar>k\<bar>"
    by (simp only: q)
  also from assms(2) have "(of_int \<bar>k\<bar> :: rat) < of_int (2 ^ 53)"
    by (simp only: of_int_less_iff)
  finally have below: "(2 :: rat) powi floor_log2 n b < 2 powi 53"
    by simp
  have "floor_log2 n b < 53"
  proof (rule ccontr)
    assume "\<not> floor_log2 n b < 53"
    then have "(2 :: rat) powi 53 \<le> 2 powi floor_log2 n b"
      by (intro power_int_increasing) simp_all
    with below show False
      by simp
  qed
  then have p: "p \<le> 0"
    by (simp add: p_def double_exponent_def)
  from assms(1) False have nz: "k * b \<noteq> 0"
    by simp
  have sign: "sgn (k * b) * \<bar>k\<bar> = k"
    using assms(1) by (simp add: sgn_mult mult_sgn_abs)
  from sign have sr: "(of_int (sgn (k * b)) :: rat) * \<bar>of_int k\<bar> = of_int k"
    by (metis of_int_abs of_int_mult)
  have mant: "double_mantissa n b =
                (if 0 \<le> p then round_half_even n (b * 2 ^ nat p)
                 else round_half_even (n * 2 ^ nat (- p)) b)"
    by (simp only: double_mantissa_def Let_def p_def)
  have nd: "nearest_double (k * b) b =
              (if 0 \<le> p
               then (if 2 ^ 1024 \<le> double_mantissa n b * 2 ^ nat p then None
                     else Some (of_int (sgn (k * b) * double_mantissa n b * 2 ^ nat p)))
               else Some (of_int (sgn (k * b) * double_mantissa n b) / of_int (2 ^ nat (- p))))"
    using nz by (simp only: nearest_double_def Let_def n_def p_def if_False)
  show ?thesis
  proof (cases "p = 0")
    case True
    have "round_half_even n b = \<bar>k\<bar>"
      unfolding n(1) by (rule round_half_even_exact [OF assms(1)])
    then have m: "double_mantissa n b = \<bar>k\<bar>"
      by (simp add: mant True)
    from assms(2) have "\<bar>k\<bar> < 2 ^ 1024"
      by (rule less_trans) simp
    with m sr show ?thesis
      by (simp add: nd True)
  next
    case False
    with p have neg: "p < 0"
      by simp
    have "n * 2 ^ nat (- p) = (\<bar>k\<bar> * 2 ^ nat (- p)) * b"
      by (simp add: n(1) mult_ac)
    then have "round_half_even (n * 2 ^ nat (- p)) b = \<bar>k\<bar> * 2 ^ nat (- p)"
      by (simp only: round_half_even_exact [OF assms(1)])
    with neg have m: "double_mantissa n b = \<bar>k\<bar> * 2 ^ nat (- p)"
      by (simp add: mant)
    from neg sr show ?thesis
      by (simp add: nd m mult.assoc [symmetric])
  qed
qed


lemma nearest_double_total:
  assumes "0 < b" and "\<bar>a\<bar> < 2 ^ 1023"
  shows "\<exists>d. nearest_double a b = Some d"
proof (cases "a = 0")
  case True
  then show ?thesis
    by (simp add: nearest_double_def)
next
  case False
  then have n: "0 < \<bar>a\<bar>"
    by simp
  define p m where "p = double_exponent \<bar>a\<bar> b" and "m = double_mantissa \<bar>a\<bar> b"
  note m = double_mantissa_bound [OF n assms(1), folded m_def]
  from assms(1) have "(1 :: rat) \<le> of_int b"
    by simp
  then have "(of_int \<bar>a\<bar> / of_int b :: rat) \<le> of_int \<bar>a\<bar> / 1"
    by (intro divide_left_mono) simp_all
  also from assms(2) have "(of_int \<bar>a\<bar> / 1 :: rat) < of_int (2 ^ 1023)"
    by (simp only: div_by_1 of_int_less_iff)
  finally have "(of_int \<bar>a\<bar> / of_int b :: rat) < 2 powi 1023"
    by simp
  with floor_log2_bounds [OF n assms(1)] have below: "(2 :: rat) powi floor_log2 \<bar>a\<bar> b < 2 powi 1023"
    by simp
  have "floor_log2 \<bar>a\<bar> b < 1023"
  proof (rule ccontr)
    assume "\<not> floor_log2 \<bar>a\<bar> b < 1023"
    then have "(2 :: rat) powi 1023 \<le> 2 powi floor_log2 \<bar>a\<bar> b"
      by (intro power_int_increasing) simp_all
    with below show False
      by simp
  qed
  then have p: "p \<le> 970"
    by (simp add: p_def double_exponent_def)
  show ?thesis
  proof (cases "0 \<le> p")
    case True
    with p have "nat p \<le> 970"
      by simp
    then have "(2 :: int) ^ nat p \<le> 2 ^ 970"
      by (intro power_increasing) simp_all
    with m have "m * 2 ^ nat p \<le> 2 ^ 53 * 2 ^ 970"
      by (intro mult_mono) simp_all
    also have "(2 :: int) ^ 53 * 2 ^ 970 < 2 ^ 1024"
      by simp
    finally have "\<not> 2 ^ 1024 \<le> m * 2 ^ nat p"
      by simp
    with False True show ?thesis
      by (simp add: nearest_double_def Let_def p_def m_def)
  next
    case False
    with \<open>a \<noteq> 0\<close> show ?thesis
      by (simp add: nearest_double_def Let_def p_def m_def)
  qed
qed

text \<open>No double is nearer to the quotient, and the result is a double.\<close>

lemma round_half_even_tie: "2 * (n mod d) = d \<Longrightarrow> even (round_half_even n d)"
  by (simp add: round_half_even_def Let_def)

lemma int_nearest:
  fixes t :: rat
  assumes "\<bar>of_int M - t\<bar> \<le> 1 / 2"
  shows "\<bar>of_int M - t\<bar> \<le> \<bar>of_int j - t\<bar>"
proof (cases "j = M")
  case True
  then show ?thesis
    by simp
next
  case False
  then have "1 \<le> \<bar>j - M\<bar>"
    by simp
  then have "(of_int 1 :: rat) \<le> of_int \<bar>j - M\<bar>"
    by (simp only: of_int_le_iff)
  then have "(1 :: rat) \<le> \<bar>of_int j - of_int M\<bar>"
    by simp
  with assms show ?thesis
    by linarith
qed

lemma scaled_distance:
  fixes q :: rat
  shows "\<bar>of_int i * 2 powi P - q\<bar> = 2 powi P * \<bar>of_int i - q / 2 powi P\<bar>"
proof -
  have pos: "(0 :: rat) < 2 powi P"
    by simp
  have "of_int i * 2 powi P - q = 2 powi P * (of_int i - q / 2 powi P)"
    using pos by (simp add: field_simps)
  then show ?thesis
    using pos by (simp only: abs_mult abs_of_pos)
qed

lemma double_value_nearest_multiple:
  assumes "0 < n" and "0 < b"
  shows "\<bar>of_int (double_mantissa n b) * 2 powi double_exponent n b - of_int n / of_int b\<bar>
           \<le> \<bar>of_int j * 2 powi double_exponent n b - (of_int n / of_int b :: rat)\<bar>"
proof -
  from int_nearest [OF double_mantissa_near [OF assms]]
  have "\<bar>of_int (double_mantissa n b) - of_int n / of_int b / 2 powi double_exponent n b\<bar>
          \<le> \<bar>of_int j - (of_int n / of_int b / 2 powi double_exponent n b :: rat)\<bar>" .
  then have "2 powi double_exponent n b
               * \<bar>of_int (double_mantissa n b) - of_int n / of_int b / 2 powi double_exponent n b\<bar>
          \<le> 2 powi double_exponent n b
               * \<bar>of_int j - (of_int n / of_int b / 2 powi double_exponent n b :: rat)\<bar>"
    by (intro mult_left_mono) simp_all
  then show ?thesis
    by (simp only: scaled_distance)
qed

lemma double_value_nearest:
  assumes "0 < n" and "0 < b" and "\<bar>m\<bar> \<le> 2 ^ 53" and "- 1074 \<le> p"
  shows "\<bar>of_int (double_mantissa n b) * 2 powi double_exponent n b - of_int n / of_int b\<bar>
           \<le> \<bar>of_int m * 2 powi p - (of_int n / of_int b :: rat)\<bar>"
proof -
  define P where "P = double_exponent n b"
  define q :: rat where "q = of_int n / of_int b"
  define v :: rat where "v = of_int (double_mantissa n b) * 2 powi P"
  have multiple: "\<bar>v - q\<bar> \<le> \<bar>of_int j * 2 powi P - q\<bar>" for j
    unfolding v_def q_def P_def by (rule double_value_nearest_multiple [OF assms(1,2)])
  have "\<bar>v - q\<bar> \<le> \<bar>of_int m * 2 powi p - q\<bar>"
  proof (cases "P \<le> p")
    case True
    then have "(2 :: rat) powi (p - P) = of_int (2 ^ nat (p - P))"
      by (simp add: powi_pos)
    moreover have "(2 :: rat) powi p = 2 powi (p - P) * 2 powi P"
      by (simp add: power_int_add [symmetric])
    ultimately have eq: "(of_int m :: rat) * 2 powi p = of_int (m * 2 ^ nat (p - P)) * 2 powi P"
      by (simp only: of_int_mult mult.assoc)
    from multiple [of "m * 2 ^ nat (p - P)"] show ?thesis
      by (simp only: eq)
  next
    case False
    define e where "e = floor_log2 n b"
    from False assms(4) have P: "P = e - 52"
      by (simp add: P_def e_def double_exponent_def max_def split: if_splits)
    have "(2 :: rat) powi (52 + P) = 2 powi 52 * 2 powi P"
      by (rule power_int_add) simp
    moreover have "52 + P = e"
      by (simp add: P)
    moreover have "(2 :: rat) powi 52 = of_int (2 ^ 52)"
      by simp
    ultimately have top: "(2 :: rat) powi e = of_int (2 ^ 52) * 2 powi P"
      by (simp only:)
    from False have "p \<le> P - 1"
      by simp
    then have "(2 :: rat) powi p \<le> 2 powi (P - 1)"
      by (intro power_int_increasing) simp_all
    moreover from assms(3) have "(of_int \<bar>m\<bar> :: rat) \<le> of_int (2 ^ 53)"
      by (simp only: of_int_le_iff)
    then have "(of_int m :: rat) \<le> 2 ^ 53"
      by simp
    ultimately have "(of_int m :: rat) * 2 powi p \<le> 2 ^ 53 * 2 powi (P - 1)"
      by (intro mult_mono) simp_all
    also have "(2 :: rat) ^ 53 * 2 powi (P - 1) = 2 powi 53 * 2 powi (P - 1)"
      by simp
    also have "\<dots> = 2 powi (53 + (P - 1))"
      by (rule power_int_add [symmetric]) simp
    also have "53 + (P - 1) = e"
      by (simp add: P)
    finally have x: "(of_int m :: rat) * 2 powi p \<le> 2 powi e" .
    from floor_log2_bounds [OF assms(1,2)] have low: "2 powi e \<le> q"
      by (simp add: e_def q_def)
    from multiple [of "2 ^ 52"] have "\<bar>v - q\<bar> \<le> \<bar>2 powi e - q\<bar>"
      by (simp only: top)
    with x low show ?thesis
      by linarith
  qed
  then show ?thesis
    by (simp only: v_def q_def P_def)
qed

lemma nearest_double_nearest:
  assumes "0 < b" and "nearest_double a b = Some d" and "\<bar>m\<bar> \<le> 2 ^ 53" and "- 1074 \<le> p"
  shows "\<bar>d - of_int a / of_int b\<bar> \<le> \<bar>of_int m * 2 powi p - (of_int a / of_int b :: rat)\<bar>"
proof (cases "a = 0")
  case True
  with assms(2) show ?thesis
    by (simp add: nearest_double_def)
next
  case False
  then have n: "0 < \<bar>a\<bar>"
    by simp
  define s :: rat where "s = of_int (sgn a)"
  define v :: rat where "v = of_int (double_mantissa \<bar>a\<bar> b) * 2 powi double_exponent \<bar>a\<bar> b"
  define q :: rat where "q = of_int \<bar>a\<bar> / of_int b"
  define x :: rat where "x = of_int m * 2 powi p"
  from False have s: "\<bar>s\<bar> = 1" "s * s = 1"
    by (simp_all add: s_def sgn_if)
  have "(of_int a :: rat) = of_int (sgn a * \<bar>a\<bar>)"
    by (simp only: mult_sgn_abs)
  then have a: "(of_int a / of_int b :: rat) = s * q"
    by (simp only: q_def s_def of_int_mult times_divide_eq_right)
  from nearest_double_value [OF False assms(2)] have d: "d = s * v"
    by (simp only: v_def s_def)
  have "d - s * q = s * (v - q)"
    by (simp only: d right_diff_distrib)
  then have "\<bar>d - s * q\<bar> = \<bar>s\<bar> * \<bar>v - q\<bar>"
    by (simp only: abs_mult)
  then have left: "\<bar>d - s * q\<bar> = \<bar>v - q\<bar>"
    by (simp add: s(1))
  have "s * (x - s * q) = s * x - (s * s) * q"
    by (simp only: right_diff_distrib mult.assoc)
  then have "s * (x - s * q) = s * x - q"
    by (simp add: s(2))
  then have "\<bar>s\<bar> * \<bar>x - s * q\<bar> = \<bar>s * x - q\<bar>"
    by (simp only: abs_mult [symmetric])
  then have right: "\<bar>x - s * q\<bar> = \<bar>s * x - q\<bar>"
    by (simp add: s(1))
  have sx: "s * x = of_int (sgn a * m) * 2 powi p"
    by (simp only: s_def x_def of_int_mult mult.assoc)
  from False assms(3) have "\<bar>sgn a * m\<bar> \<le> 2 ^ 53"
    by (simp add: abs_mult sgn_if)
  from double_value_nearest [OF n assms(1) this assms(4)]
  have "\<bar>v - q\<bar> \<le> \<bar>s * x - q\<bar>"
    by (simp only: v_def q_def sx)
  then have "\<bar>d - s * q\<bar> \<le> \<bar>x - s * q\<bar>"
    by (simp only: left right)
  then show ?thesis
    by (simp only: a x_def)
qed

lemma nearest_double_representable:
  assumes "0 < b" and "nearest_double a b = Some d"
  shows "\<exists>m p. d = of_int m * 2 powi p \<and> \<bar>m\<bar> \<le> 2 ^ 53 \<and> - 1074 \<le> p"
proof (cases "a = 0")
  case True
  with assms(2) have "d = of_int 0 * 2 powi 0 \<and> \<bar>0 :: int\<bar> \<le> 2 ^ 53 \<and> - 1074 \<le> (0 :: int)"
    by (simp add: nearest_double_def)
  then show ?thesis
    by blast
next
  case False
  then have n: "0 < \<bar>a\<bar>"
    by simp
  define M P where "M = double_mantissa \<bar>a\<bar> b" and "P = double_exponent \<bar>a\<bar> b"
  note M = double_mantissa_bound [OF n assms(1), folded M_def]
  from nearest_double_value [OF False assms(2)]
  have "d = of_int (sgn a * M) * 2 powi P"
    by (simp only: M_def P_def of_int_mult mult.assoc)
  moreover from False M have "\<bar>sgn a * M\<bar> \<le> 2 ^ 53"
    by (simp add: abs_mult sgn_if)
  moreover have "- 1074 \<le> P"
    by (simp add: P_def double_exponent_def)
  ultimately show ?thesis
    by blast
qed

section \<open>The adapter\<close>

lemma adapter_request_exception:
  "srv (length st) (SearchUsers keyword count offset) = RequestException \<Longrightarrow>
     search_users srv keyword count offset st = (Inr (JList []), st @ [SearchUsers keyword count offset])"
  "srv (length st) (UserVideos sec_uid count cursor) = RequestException \<Longrightarrow>
     get_user_videos srv sec_uid count cursor st = (Inr (JList []), st @ [UserVideos sec_uid count cursor])"
  by (simp_all add: search_users_def get_user_videos_def http_get_def)

lemma adapter_missing_field:
  "map_of kvs ''userInfo'' = None \<Longrightarrow> search_users_body (JObj kvs) = Inr (JList [])"
  "map_of kvs ''userInfo'' = Some (JObj info) \<Longrightarrow> map_of info ''user_list'' = None \<Longrightarrow>
     search_users_body (JObj kvs) = Inr (JList [])"
  "map_of kvs ''itemList'' = None \<Longrightarrow> get_user_videos_body (JObj kvs) = Inr (JList [])"
  by (auto simp: search_users_body_def get_user_videos_body_def map_of_eq_None_iff
           dest: map_of_SomeD intro: rev_image_eqI)

text \<open>
  C7. A \<^verbatim>\<open>requests.RequestException\<close> becomes the empty list, but a body that is
  valid JSON of another shape does not: on \<^verbatim>\<open>{"userInfo": null}\<close> the membership
  test of line 39 raises \<^verbatim>\<open>TypeError\<close>, and so does the test of line 92 on the body
  \<^verbatim>\<open>null\<close>. Neither is a \<^verbatim>\<open>RequestException\<close>, so both leave the adapter.
\<close>

theorem adapter_raises_type_error:
  "search_users null_server keyword count offset st =
     (Inl TypeError, st @ [SearchUsers keyword count offset])
   \<and> get_user_videos null_server sec_uid count cursor st =
     (Inl TypeError, st @ [UserVideos sec_uid count cursor])"
  by (simp add: search_users_def get_user_videos_def http_get_def null_server_def
                search_users_body_def get_user_videos_body_def)

section \<open>The search aggregator\<close>

lemma py_iter_truthy: "py_truthy users \<Longrightarrow> py_iter users = Inr items \<Longrightarrow> items \<noteq> []"
  by (cases users) auto

lemma search_loop_first_empty:
  assumes "search_users srv keyword 30 0 st = (Inr users, st')" and "\<not> py_truthy users"
    and "0 < max_results"
  shows "search_loop srv keyword max_results [] 0 st = (Inr [], st')"
  using assms by (subst search_loop.simps) simp

text \<open>How far the aggregator can overshoot: by less than one page.\<close>

lemma search_loop_bound:
  assumes "search_loop srv keyword max_results all_users offset st = (Inr found, st')"
    and "\<forall>off s users s' items.
           search_users srv keyword 30 off s = (Inr users, s') \<longrightarrow>
           py_iter users = Inr items \<longrightarrow> length items \<le> n"
    and "int (length all_users) < max_results + int n"
  shows "int (length found) < max_results + int n"
  using assms
proof (induction srv keyword max_results all_users offset st rule: search_loop.induct)
  case (1 srv keyword max_results all_users offset st)
  show ?case
  proof (cases "int (length all_users) < max_results")
    case False
    with "1.prems" show ?thesis
      by (subst (asm) search_loop.simps) simp
  next
    case True
    obtain r s where call: "search_users srv keyword 30 offset st = (r, s)"
      by (cases "search_users srv keyword 30 offset st")
    show ?thesis
    proof (cases r)
      case (Inl e)
      with True call "1.prems"(1) show ?thesis
        by (subst (asm) search_loop.simps) simp
    next
      case (Inr users)
      show ?thesis
      proof (cases "py_truthy users")
        case False
        with True call Inr "1.prems" show ?thesis
          by (subst (asm) search_loop.simps) simp
      next
        case truthy: True
        show ?thesis
        proof (cases "py_iter users")
          case (Inl e)
          with True call Inr truthy "1.prems"(1) show ?thesis
            by (subst (asm) search_loop.simps) simp
        next
          case items: (Inr items)
          from True call Inr truthy items "1.prems"(1)
          have rest: "search_loop srv keyword max_results (all_users @ items)
                        (offset + length items) s = (Inr found, st')"
            by (subst (asm) search_loop.simps) simp
          from call Inr items "1.prems"(2) have "length items \<le> n"
            by blast
          with True have "int (length (all_users @ items)) < max_results + int n"
            by simp
          with "1.IH" [OF True call [symmetric] Inr _ items rest "1.prems"(2)] truthy show ?thesis
            by simp
        qed
      qed
    qed
  qed
qed

text \<open>
  C4. The loop of lines 111 to 123 tests the bound before a page is fetched and then adds
  the whole page: with \<open>max_results = 2\<close> and a first page of three distinct users the
  aggregator returns three candidates, and with the default of 50 and full pages of 30 it
  returns 60.
\<close>

theorem search_returns_more_than_max_results:
  "search_influencers_by_keyword demo_server ''tech'' 2 [] =
     (Inr [user_record ''a'' 100, user_record ''b'' 200, user_record ''c'' 999999],
      [SearchUsers ''tech'' 30 0])
   \<and> (case fst (search_influencers_by_keyword full_page_server ''tech'' 50 []) of
        Inl e \<Rightarrow> False
      | Inr users \<Rightarrow> length users = 60)"
  by code_simp

subsection \<open>A dict comprehension keeps the last value of a key\<close>

lemma map_of_dict_set: "map_of (dict_set d k v) = (map_of d)(k \<mapsto> v)"
  by (induction d) (auto simp: fun_upd_twist)

lemma keys_dict_set: "fst ` set (dict_set d k v) = insert k (fst ` set d)"
  by (induction d k v rule: dict_set.induct) auto

lemma distinct_dict_set: "distinct (map fst d) \<Longrightarrow> distinct (map fst (dict_set d k v))"
  by (induction d) (auto simp: keys_dict_set)

lemma length_dict_set: "length (dict_set d k v) \<le> Suc (length d)"
  by (induction d) auto

lemma set_dict_set: "set (dict_set d k v) \<subseteq> insert (k, v) (set d)"
  by (induction d) (auto split: if_splits)

lemma dict_by_append:
  "dict_by key_of (xs @ ys) d =
     (case dict_by key_of xs d of Inl e \<Rightarrow> Inl e | Inr d' \<Rightarrow> dict_by key_of ys d')"
  by (induction xs arbitrary: d) (auto split: sum.splits)

lemma dict_by_length: "dict_by key_of xs d = Inr d' \<Longrightarrow> length d' \<le> length d + length xs"
proof (induction xs arbitrary: d)
  case Nil
  then show ?case by simp
next
  case (Cons x xs)
  then obtain k where k: "key_of x = Inr k" and rest: "dict_by key_of xs (dict_set d k x) = Inr d'"
    by (auto split: sum.splits)
  from Cons.IH [OF rest] length_dict_set [of d k x] show ?case
    by simp
qed

lemma dict_by_distinct:
  "dict_by key_of xs d = Inr d' \<Longrightarrow> distinct (map fst d) \<Longrightarrow> distinct (map fst d')"
  by (induction xs arbitrary: d) (auto split: sum.splits intro: distinct_dict_set)

lemma dict_by_entries:
  "dict_by key_of xs d = Inr d' \<Longrightarrow> (k, v) \<in> set d' \<Longrightarrow>
     (k, v) \<in> set d \<or> (v \<in> set xs \<and> key_of v = Inr k)"
proof (induction xs arbitrary: d)
  case Nil
  then show ?case by simp
next
  case (Cons x xs)
  then obtain kx where kx: "key_of x = Inr kx"
    and rest: "dict_by key_of xs (dict_set d kx x) = Inr d'"
    by (auto split: sum.splits)
  from Cons.IH [OF rest Cons.prems(2)]
  consider "(k, v) \<in> set (dict_set d kx x)" | "v \<in> set xs \<and> key_of v = Inr k"
    by blast
  then show ?case
  proof cases
    case 1
    with set_dict_set [of d kx x] have "(k, v) = (kx, x) \<or> (k, v) \<in> set d"
      by blast
    with kx show ?thesis
      by auto
  next
    case 2
    then show ?thesis by simp
  qed
qed

lemma dict_by_keys_ok: "dict_by key_of xs d = Inr d' \<Longrightarrow> x \<in> set xs \<Longrightarrow> \<exists>k. key_of x = Inr k"
  by (induction xs arbitrary: d) (auto split: sum.splits)

lemma dict_by_untouched:
  "dict_by key_of xs d = Inr d' \<Longrightarrow> \<forall>x\<in>set xs. key_of x \<noteq> Inr k \<Longrightarrow> map_of d' k = map_of d k"
proof (induction xs arbitrary: d)
  case Nil
  then show ?case by simp
next
  case (Cons x xs)
  then obtain kx where kx: "key_of x = Inr kx"
    and rest: "dict_by key_of xs (dict_set d kx x) = Inr d'"
    by (auto split: sum.splits)
  from Cons.prems(2) kx have "kx \<noteq> k"
    by auto
  moreover from Cons.prems(2) have "map_of d' k = map_of (dict_set d kx x) k"
    by (intro Cons.IH [OF rest]) simp
  ultimately show ?case
    by (simp add: map_of_dict_set)
qed

lemma dict_by_last:
  assumes "dict_by key_of (pre @ u # post) d = Inr d'" and "key_of u = Inr k"
    and "\<forall>x\<in>set post. key_of x \<noteq> Inr k"
  shows "map_of d' k = Some u"
proof -
  from assms(1) obtain d1 where "dict_by key_of pre d = Inr d1"
    and "dict_by key_of (u # post) d1 = Inr d'"
    by (auto simp: dict_by_append split: sum.splits)
  with assms(2) have "dict_by key_of post (dict_set d1 k u) = Inr d'"
    by simp
  from dict_by_untouched [OF this assms(3)] show ?thesis
    by (simp add: map_of_dict_set)
qed

text \<open>What a comprehension over a list returns as its values.\<close>

lemma comprehension_values:
  assumes "dict_by key_of xs [] = Inr d"
  shows "length (dict_values d) \<le> length xs"
    and "set (dict_values d) \<subseteq> set xs"
    and "distinct (map key_of (dict_values d))"
proof -
  from dict_by_length [OF assms] show "length (dict_values d) \<le> length xs"
    by (simp add: dict_values_def)
  have entry: "v \<in> set xs \<and> key_of v = Inr k" if "(k, v) \<in> set d" for k v
    using dict_by_entries [OF assms that] by simp
  then show "set (dict_values d) \<subseteq> set xs"
    by (auto simp: dict_values_def)
  from entry have "map key_of (dict_values d) = map Inr (map fst d)"
    by (auto simp: dict_values_def)
  moreover from dict_by_distinct [OF assms] have "distinct (map fst d)"
    by simp
  then have "distinct (map (Inr :: key \<Rightarrow> py_error + key) (map fst d))"
    by (subst distinct_map) (simp add: inj_on_def)
  ultimately show "distinct (map key_of (dict_values d))"
    by (simp only:)
qed

lemma comprehension_last_wins:
  assumes "dict_by key_of (pre @ u # post) [] = Inr d"
    and "\<forall>x\<in>set post. key_of x \<noteq> key_of u"
  shows "u \<in> set (dict_values d)"
    and "\<forall>v\<in>set (dict_values d). key_of v = key_of u \<longrightarrow> v = u"
proof -
  from dict_by_keys_ok [OF assms(1), of u] obtain k where k: "key_of u = Inr k"
    by auto
  with assms(2) have "\<forall>x\<in>set post. key_of x \<noteq> Inr k"
    by simp
  with assms(1) k have last: "map_of d k = Some u"
    by (rule dict_by_last)
  then have "(k, u) \<in> set d"
    by (rule map_of_SomeD)
  then show "u \<in> set (dict_values d)"
    by (force simp: dict_values_def)
  from dict_by_distinct [OF assms(1)] have dist: "distinct (map fst d)"
    by simp
  show "\<forall>v\<in>set (dict_values d). key_of v = key_of u \<longrightarrow> v = u"
  proof (intro ballI impI)
    fix v
    assume "v \<in> set (dict_values d)" and same: "key_of v = key_of u"
    then obtain k' where in_d: "(k', v) \<in> set d"
      by (auto simp: dict_values_def)
    from dict_by_entries [OF assms(1) in_d] have "key_of v = Inr k'"
      by simp
    with same k have "k' = k"
      by simp
    with in_d dist have "map_of d k = Some v"
      by simp
    with last show "v = u"
      by simp
  qed
qed

lemma dict_by_total:
  "\<forall>x\<in>set xs. \<exists>k. key_of x = Inr k \<Longrightarrow> \<exists>d'. dict_by key_of xs d = Inr d'"
  by (induction xs arbitrary: d) auto

text \<open>
  C5. The deduplication of lines 125 to 129 returns when every record has a hashable
  \<^verbatim>\<open>secUid\<close> under \<^verbatim>\<open>user\<close>. When it returns, its result is no longer than
  the accumulated list, holds only records of that list, and holds no two records with
  the same \<^verbatim>\<open>secUid\<close>; a record after which the list has no record with the same
  \<^verbatim>\<open>secUid\<close> is in the result, and it is the only record of the result with that
  \<^verbatim>\<open>secUid\<close>: of several occurrences the last one is kept.
\<close>

theorem dedup_by_sec_uid_last_wins:
  "((\<forall>u\<in>set all_users. \<exists>k. user_key u = Inr k) \<longrightarrow> (\<exists>result. unique_users all_users = Inr result))
   \<and> (unique_users all_users = Inr result \<longrightarrow>
        length result \<le> length all_users
      \<and> set result \<subseteq> set all_users
      \<and> distinct (map user_key result)
      \<and> (\<forall>pre u post. all_users = pre @ u # post
             \<longrightarrow> (\<forall>x\<in>set post. user_key x \<noteq> user_key u)
             \<longrightarrow> u \<in> set result \<and> (\<forall>v\<in>set result. user_key v = user_key u \<longrightarrow> v = u)))"
proof (rule conjI [OF impI impI])
  assume "\<forall>u\<in>set all_users. \<exists>k. user_key u = Inr k"
  from dict_by_total [OF this, of "[]"] show "\<exists>result. unique_users all_users = Inr result"
    by (auto simp: unique_users_def)
next
  assume "unique_users all_users = Inr result"
  then obtain d where d: "dict_by user_key all_users [] = Inr d"
    and result: "result = dict_values d"
    by (auto simp: unique_users_def split: sum.splits)
  show "length result \<le> length all_users
      \<and> set result \<subseteq> set all_users
      \<and> distinct (map user_key result)
      \<and> (\<forall>pre u post. all_users = pre @ u # post
             \<longrightarrow> (\<forall>x\<in>set post. user_key x \<noteq> user_key u)
             \<longrightarrow> u \<in> set result \<and> (\<forall>v\<in>set result. user_key v = user_key u \<longrightarrow> v = u))"
    unfolding result
    using comprehension_values [OF d] comprehension_last_wins [of user_key _ _ _ d] d
    by blast
qed

theorem dedup_by_sec_uid_last_wins_witness:
  "unique_users [user_record ''a'' 10, user_record ''b'' 20, user_record ''a'' 30] =
     Inr [user_record ''a'' 30, user_record ''b'' 20]
   \<and> length [user_record ''a'' 30, user_record ''b'' 20]
       \<le> length [user_record ''a'' 10, user_record ''b'' 20, user_record ''a'' 30]
   \<and> distinct (map user_key [user_record ''a'' 30, user_record ''b'' 20])
   \<and> user_record ''a'' 30 \<in> set [user_record ''a'' 30, user_record ''b'' 20]
   \<and> user_record ''a'' 10 \<notin> set [user_record ''a'' 30, user_record ''b'' 20]"
proof -
  have u: "unique_users [user_record ''a'' 10, user_record ''b'' 20, user_record ''a'' 30] =
     Inr [user_record ''a'' 30, user_record ''b'' 20]"
    by code_simp
  have n: "user_record ''a'' 10 \<notin> set [user_record ''a'' 30, user_record ''b'' 20]"
    by (simp add: user_record_def)
  from dedup_by_sec_uid_last_wins
    [of "[user_record ''a'' 10, user_record ''b'' 20, user_record ''a'' 30]"
        "[user_record ''a'' 30, user_record ''b'' 20]"] u
  have "length [user_record ''a'' 30, user_record ''b'' 20]
          \<le> length [user_record ''a'' 10, user_record ''b'' 20, user_record ''a'' 30]"
    and "distinct (map user_key [user_record ''a'' 30, user_record ''b'' 20])"
    and "[user_record ''a'' 10, user_record ''b'' 20, user_record ''a'' 30] =
           [user_record ''a'' 10, user_record ''b'' 20] @ user_record ''a'' 30 # []
         \<longrightarrow> (\<forall>x\<in>set []. user_key x \<noteq> user_key (user_record ''a'' 30))
         \<longrightarrow> user_record ''a'' 30 \<in> set [user_record ''a'' 30, user_record ''b'' 20]"
    by blast+
  with u n show ?thesis
    by simp
qed

lemma aggregator_bound:
  assumes "search_influencers_by_keyword srv keyword max_results st = (Inr result, st')"
    and "\<forall>off s users s' items.
           search_users srv keyword 30 off s = (Inr users, s') \<longrightarrow>
           py_iter users = Inr items \<longrightarrow> length items \<le> n"
    and "0 < max_results + int n"
  shows "int (length result) < max_results + int n"
proof -
  obtain r s where run: "search_loop srv keyword max_results [] 0 st = (r, s)"
    by (cases "search_loop srv keyword max_results [] 0 st")
  with assms(1) obtain all_users
    where loop: "search_loop srv keyword max_results [] 0 st = (Inr all_users, st')"
      and unique: "unique_users all_users = Inr result"
    by (cases r) (auto simp: search_influencers_by_keyword_def)
  from loop assms(2) have "int (length all_users) < max_results + int n"
    by (rule search_loop_bound) (simp add: assms(3))
  moreover from unique obtain d where "dict_by user_key all_users [] = Inr d" and "result = dict_values d"
    by (auto simp: unique_users_def split: sum.splits)
  then have "length result \<le> length all_users"
    using comprehension_values(1) by blast
  ultimately show ?thesis
    by simp
qed

section \<open>The qualification filter\<close>

lemma filter_loop_append:
  "filter_loop srv mf mv nich (xs @ ys) qs st =
     (case filter_loop srv mf mv nich xs qs st of
        (Inl e, st') \<Rightarrow> (Inl e, st')
      | (Inr qs', st') \<Rightarrow> filter_loop srv mf mv nich ys qs' st')"
  by (induction xs arbitrary: qs st) (auto split: prod.splits sum.splits)

lemma filter_body_over_ceiling:
  assumes "candidate_fields user_data = Inr (user, uname, sec_uid, follower_count)"
    and "follower_count > max_followers"
  shows "filter_body srv max_followers min_avg_views nich user_data qs st = (Inr qs, st)"
  using assms by (simp add: filter_body_def)

lemma filter_body_under_ceiling:
  assumes "candidate_fields user_data = Inr (user, uname, sec_uid, follower_count)"
    and "\<not> follower_count > max_followers"
  shows "filter_body srv max_followers min_avg_views nich user_data qs st =
         analyze_videos srv min_avg_views nich user uname sec_uid follower_count qs st"
  using assms by (simp add: filter_body_def)

lemma get_user_videos_calls:
  "snd (get_user_videos srv sec_uid count cursor st) = st @ [UserVideos sec_uid count cursor]"
  by (simp add: get_user_videos_def http_get_def split: http_response.splits)

lemma analyze_videos_calls:
  "snd (analyze_videos srv mv nich user uname sec_uid fc qs st) = st @ [UserVideos sec_uid 30 0]"
proof -
  obtain r st' where g: "get_user_videos srv sec_uid 30 0 st = (r, st')"
    by (cases "get_user_videos srv sec_uid 30 0 st")
  with get_user_videos_calls [of srv sec_uid 30 0 st] have "st' = st @ [UserVideos sec_uid 30 0]"
    by simp
  with g show ?thesis
    by (simp add: analyze_videos_def split: sum.splits)
qed

subsection \<open>No round divides by zero\<close>

lemma py_getitem_error: "py_getitem x k = Inl e \<Longrightarrow> e = KeyError \<or> e = TypeError"
  by (cases x) (auto split: option.splits)

lemma py_int_error: "py_int x = Inl e \<Longrightarrow> e = ValueError \<or> e = TypeError"
  by (cases x) (auto split: option.splits)

lemma py_get_error: "py_get x k d = Inl e \<Longrightarrow> e = AttributeError"
  by (cases x) (auto split: option.splits)

lemma int_field_error: "int_field x k = Inl e \<Longrightarrow> e \<noteq> ZeroDivisionError"
  by (auto simp: int_field_def split: sum.splits dest: py_get_error py_int_error)

lemma play_count_error: "play_count v = Inl e \<Longrightarrow> e \<noteq> ZeroDivisionError"
  by (auto simp: play_count_def split: sum.splits dest: py_getitem_error py_int_error)

lemma sum_play_counts_error: "sum_play_counts vs acc = Inl e \<Longrightarrow> e \<noteq> ZeroDivisionError"
  by (induction vs arbitrary: acc) (auto split: sum.splits dest: play_count_error)

lemma py_iter_error: "py_iter x = Inl e \<Longrightarrow> e = TypeError"
  by (cases x) auto

lemma average_views_error:
  assumes "py_truthy videos" and "average_views videos = Inl e"
  shows "e \<noteq> ZeroDivisionError"
proof (cases "py_iter videos")
  case (Inl e')
  with assms(2) py_iter_error [OF Inl] show ?thesis
    by (simp add: average_views_def)
next
  case (Inr vs)
  with assms(1) have "vs \<noteq> []"
    by (rule py_iter_truthy)
  with assms(2) Inr show ?thesis
    by (auto simp: average_views_def py_truediv_def split: sum.splits if_splits option.splits
             dest: sum_play_counts_error)
qed

lemma influencer_data_error:
  "influencer_data user uname sec_uid fc avg nich = Inl e \<Longrightarrow> e \<noteq> ZeroDivisionError"
  by (auto simp: influencer_data_def split: sum.splits dest: py_get_error int_field_error)

lemma candidate_fields_error: "candidate_fields user_data = Inl e \<Longrightarrow> e \<noteq> ZeroDivisionError"
  by (auto simp: candidate_fields_def split: sum.splits dest: py_getitem_error int_field_error)

lemma py_contains_error: "py_contains k x = Inl e \<Longrightarrow> e = TypeError"
  by (cases x) auto

lemma get_user_videos_error:
  "get_user_videos srv sec_uid count cursor st = (Inl e, st') \<Longrightarrow> e \<noteq> ZeroDivisionError"
  by (auto simp: get_user_videos_def get_user_videos_body_def http_get_def
           split: http_response.splits sum.splits if_splits
           dest: py_contains_error py_getitem_error)

lemma analyze_videos_error:
  "analyze_videos srv mv nich user uname sec_uid fc qs st = (Inl e, st') \<Longrightarrow> e \<noteq> ZeroDivisionError"
  by (auto simp: analyze_videos_def split: prod.splits sum.splits if_splits
           dest: get_user_videos_error average_views_error influencer_data_error)

lemma filter_body_error:
  "filter_body srv mf mv nich user_data qs st = (Inl e, st') \<Longrightarrow> e \<noteq> ZeroDivisionError"
  by (auto simp: filter_body_def split: prod.splits sum.splits if_splits
           dest: candidate_fields_error analyze_videos_error)

lemma filter_loop_error:
  "filter_loop srv mf mv nich users qs st = (Inl e, st') \<Longrightarrow> e \<noteq> ZeroDivisionError"
proof (induction users arbitrary: qs st)
  case Nil
  then show ?case by simp
next
  case (Cons user_data users)
  show ?case
  proof (cases "filter_body srv mf mv nich user_data qs st")
    case (Pair r s)
    show ?thesis
    proof (cases r)
      case (Inl e')
      with Pair Cons.prems have "filter_body srv mf mv nich user_data qs st = (Inl e, st')"
        by simp
      then show ?thesis
        by (rule filter_body_error)
    next
      case (Inr qs')
      with Pair Cons.prems have "filter_loop srv mf mv nich users qs' s = (Inl e, st')"
        by simp
      then show ?thesis
        by (rule Cons.IH)
    qed
  qed
qed

lemma analyze_videos_empty:
  assumes "get_user_videos srv sec_uid 30 0 st = (Inr videos, st')" and "\<not> py_truthy videos"
  shows "analyze_videos srv mv nich user uname sec_uid fc qs st = (Inr qs, st')"
  using assms by (simp add: analyze_videos_def)

lemma candidate_fields_user_record:
  "candidate_fields (user_record name followers) =
     Inr (JObj [(''uniqueId'', JStr name), (''secUid'', JStr name),
                (''followerCount'', JInt followers)], JStr name, JStr name, followers)"
  by (simp add: candidate_fields_def user_record_def int_field_def)

text \<open>
  C3. A candidate whose follower count exceeds \<open>max_followers\<close> leaves both the list
  of qualified influencers and the list of issued requests as they were, and the whole
  filter runs exactly as if the candidate were not in the list: no request is issued for
  it.
\<close>

theorem over_ceiling_never_fetched:
  assumes "candidate_fields user_data = Inr (user, uname, sec_uid, follower_count)"
    and "follower_count > max_followers"
  shows "filter_body srv max_followers min_avg_views nich user_data qs st = (Inr qs, st)
       \<and> filter_influencers srv (before @ user_data # after) max_followers min_avg_views nich st =
         filter_influencers srv (before @ after) max_followers min_avg_views nich st"
proof
  show "filter_body srv max_followers min_avg_views nich user_data qs st = (Inr qs, st)"
    using assms by (rule filter_body_over_ceiling)
  have skip: "filter_loop srv max_followers min_avg_views nich (user_data # after) q s =
        filter_loop srv max_followers min_avg_views nich after q s" for q s
    by (simp add: filter_body_over_ceiling [OF assms])
  show "filter_influencers srv (before @ user_data # after) max_followers min_avg_views nich st =
        filter_influencers srv (before @ after) max_followers min_avg_views nich st"
    by (simp only: filter_influencers_def filter_loop_append [of _ _ _ _ before] skip)
qed

theorem over_ceiling_never_fetched_witness:
  "candidate_fields (user_record ''c'' 999999) =
     Inr (JObj [(''uniqueId'', JStr ''c''), (''secUid'', JStr ''c''),
                (''followerCount'', JInt 999999)], JStr ''c'', JStr ''c'', 999999)
   \<and> (999999 :: int) > 550000
   \<and> filter_body demo_server 550000 40000 ''tech'' (user_record ''c'' 999999) [] [] = (Inr [], [])
   \<and> filter_influencers demo_server ([user_record ''a'' 100] @ user_record ''c'' 999999 # [user_record ''b'' 200])
        550000 40000 ''tech'' [] =
     filter_influencers demo_server ([user_record ''a'' 100] @ [user_record ''b'' 200])
        550000 40000 ''tech'' []"
proof -
  have c: "candidate_fields (user_record ''c'' 999999) =
     Inr (JObj [(''uniqueId'', JStr ''c''), (''secUid'', JStr ''c''),
                (''followerCount'', JInt 999999)], JStr ''c'', JStr ''c'', 999999)"
    by (rule candidate_fields_user_record)
  have gt: "(999999 :: int) > 550000"
    by simp
  show ?thesis
    using c gt
      over_ceiling_never_fetched [OF c gt, of demo_server 40000 "''tech''" "[]" "[]"
        "[user_record ''a'' 100]" "[user_record ''b'' 200]"]
    by simp
qed

text \<open>
  C10. For a candidate whose \<^verbatim>\<open>user\<close> dict has no \<^verbatim>\<open>followerCount\<close> entry the
  follower count is read as 0; with a ceiling that is not negative the candidate passes
  the follower check, and the round issues the video request for it.
\<close>

theorem missing_follower_count_is_zero:
  assumes "py_getitem user_data ''user'' = Inr (JObj kvs)"
    and "map_of kvs ''followerCount'' = None"
    and "map_of kvs ''uniqueId'' = Some uname"
    and "map_of kvs ''secUid'' = Some sec_uid"
    and "0 \<le> max_followers"
  shows "int_field (JObj kvs) ''followerCount'' = Inr 0
       \<and> candidate_fields user_data = Inr (JObj kvs, uname, sec_uid, 0)
       \<and> filter_body srv max_followers min_avg_views nich user_data qs st =
         analyze_videos srv min_avg_views nich (JObj kvs) uname sec_uid 0 qs st
       \<and> snd (filter_body srv max_followers min_avg_views nich user_data qs st) =
         st @ [UserVideos sec_uid 30 0]"
proof -
  from assms(2) have zero: "int_field (JObj kvs) ''followerCount'' = Inr 0"
    by (simp add: int_field_def)
  with assms(1,3,4) have c: "candidate_fields user_data = Inr (JObj kvs, uname, sec_uid, 0)"
    by (simp add: candidate_fields_def)
  from assms(5) have "\<not> 0 > max_followers"
    by simp
  with c have "filter_body srv max_followers min_avg_views nich user_data qs st =
         analyze_videos srv min_avg_views nich (JObj kvs) uname sec_uid 0 qs st"
    by (rule filter_body_under_ceiling)
  with zero c show ?thesis
    by (simp add: analyze_videos_calls)
qed

theorem missing_follower_count_is_zero_witness:
  "py_getitem (numbered_user 7) ''user'' = Inr (JObj [(''uniqueId'', JInt 7), (''secUid'', JInt 7)])
   \<and> map_of [(''uniqueId'', JInt 7), (''secUid'', JInt 7)] ''followerCount'' = None
   \<and> map_of [(''uniqueId'', JInt 7), (''secUid'', JInt 7)] ''uniqueId'' = Some (JInt 7)
   \<and> map_of [(''uniqueId'', JInt 7), (''secUid'', JInt 7)] ''secUid'' = Some (JInt 7)
   \<and> (0 :: int) \<le> 0
   \<and> candidate_fields (numbered_user 7) =
       Inr (JObj [(''uniqueId'', JInt 7), (''secUid'', JInt 7)], JInt 7, JInt 7, 0)
   \<and> snd (filter_body demo_server 0 40000 ''tech'' (numbered_user 7) [] []) = [UserVideos (JInt 7) 30 0]"
proof -
  have a: "py_getitem (numbered_user 7) ''user'' = Inr (JObj [(''uniqueId'', JInt 7), (''secUid'', JInt 7)])"
    by (simp add: numbered_user_def)
  have b: "map_of [(''uniqueId'', JInt 7), (''secUid'', JInt 7)] ''followerCount'' = None"
    by simp
  have c: "map_of [(''uniqueId'', JInt 7), (''secUid'', JInt 7)] ''uniqueId'' = Some (JInt 7)"
    by simp
  have d: "map_of [(''uniqueId'', JInt 7), (''secUid'', JInt 7)] ''secUid'' = Some (JInt 7)"
    by simp
  have e: "(0 :: int) \<le> 0"
    by simp
  show ?thesis
    using a b c d e missing_follower_count_is_zero [OF a b c d e, of demo_server 40000 "''tech''" "[]" "[]"]
    by auto
qed

text \<open>
  C1. The filter never ends in a \<^verbatim>\<open>ZeroDivisionError\<close>, although averaging an
  empty list would raise one: a candidate whose video fetch returns the empty list is
  dropped (the list of qualified influencers is returned as it was) before lines 155 and
  156 are reached.
\<close>

theorem empty_videos_rejected_before_average:
  "fst (filter_influencers srv users max_followers min_avg_views nich st) \<noteq> Inl ZeroDivisionError
   \<and> average_views (JList []) = Inl ZeroDivisionError
   \<and> (candidate_fields user_data = Inr (user, uname, sec_uid, follower_count)
        \<longrightarrow> \<not> follower_count > max_followers
        \<longrightarrow> get_user_videos srv sec_uid 30 0 st = (Inr (JList []), st')
        \<longrightarrow> filter_body srv max_followers min_avg_views nich user_data qs st = (Inr qs, st'))"
proof (intro conjI impI)
  show "fst (filter_influencers srv users max_followers min_avg_views nich st) \<noteq> Inl ZeroDivisionError"
  proof
    assume "fst (filter_influencers srv users max_followers min_avg_views nich st) = Inl ZeroDivisionError"
    then obtain s where "filter_loop srv max_followers min_avg_views nich users [] st = (Inl ZeroDivisionError, s)"
      by (cases "filter_loop srv max_followers min_avg_views nich users [] st")
         (simp add: filter_influencers_def)
    then show False
      using filter_loop_error by blast
  qed
  show "average_views (JList []) = Inl ZeroDivisionError"
    by (simp add: average_views_def py_truediv_def)
next
  assume c: "candidate_fields user_data = Inr (user, uname, sec_uid, follower_count)"
    and f: "\<not> follower_count > max_followers"
    and g: "get_user_videos srv sec_uid 30 0 st = (Inr (JList []), st')"
  from g have "analyze_videos srv min_avg_views nich user uname sec_uid follower_count qs st = (Inr qs, st')"
    by (rule analyze_videos_empty) simp
  with c f show "filter_body srv max_followers min_avg_views nich user_data qs st = (Inr qs, st')"
    by (simp add: filter_body_under_ceiling)
qed

theorem empty_videos_rejected_before_average_witness:
  "candidate_fields (user_record ''b'' 200) =
     Inr (JObj [(''uniqueId'', JStr ''b''), (''secUid'', JStr ''b''),
                (''followerCount'', JInt 200)], JStr ''b'', JStr ''b'', 200)
   \<and> \<not> (200 :: int) > 550000
   \<and> get_user_videos demo_server (JStr ''b'') 30 0 [] = (Inr (JList []), [UserVideos (JStr ''b'') 30 0])
   \<and> filter_body demo_server 550000 40000 ''tech'' (user_record ''b'' 200) [] [] =
       (Inr [], [UserVideos (JStr ''b'') 30 0])
   \<and> fst (filter_influencers demo_server [user_record ''b'' 200] 550000 40000 ''tech'' []) \<noteq> Inl ZeroDivisionError"
proof -
  have g: "get_user_videos demo_server (JStr ''b'') 30 0 [] = (Inr (JList []), [UserVideos (JStr ''b'') 30 0])"
    by (simp add: get_user_videos_def http_get_def demo_server_def video_page_def
                  get_user_videos_body_def)
  show ?thesis
    using empty_videos_rejected_before_average
      [of demo_server "[user_record ''b'' 200]" 550000 40000 "''tech''" "[]" "user_record ''b'' 200"
          "JObj [(''uniqueId'', JStr ''b''), (''secUid'', JStr ''b''), (''followerCount'', JInt 200)]"
          "JStr ''b''" "JStr ''b''" 200 "[UserVideos (JStr ''b'') 30 0]" "[]"]
      g candidate_fields_user_record [of "''b''" 200]
    by simp
qed

subsection \<open>What the filter puts into its result\<close>

lemma influencer_data_fields:
  assumes "influencer_data user uname sec_uid fc avg nich = Inr e"
  shows "username e = uname" and "secUid e = sec_uid" and "avgViews e = avg" and "niche e = nich"
  using assms by (auto simp: influencer_data_def split: sum.splits)

lemma analyze_videos_result:
  assumes "analyze_videos srv mv nich user uname sec_uid fc qs st = (Inr qs', st')"
  shows "qs' = qs \<or>
         (\<exists>e videos avg. qs' = qs @ [e]
            \<and> get_user_videos srv sec_uid 30 0 st = (Inr videos, st')
            \<and> py_truthy videos \<and> average_views videos = Inr avg \<and> of_int mv \<le> avg
            \<and> influencer_data user uname sec_uid fc avg nich = Inr e)"
proof (cases "get_user_videos srv sec_uid 30 0 st")
  case (Pair r s)
  with assms show ?thesis
    by (auto simp: analyze_videos_def split: sum.splits if_splits)
qed

lemma filter_body_result:
  assumes "filter_body srv mf mv nich user_data qs st = (Inr qs', st')"
  shows "qs' = qs \<or>
         (\<exists>e user uname sec_uid fc videos avg. qs' = qs @ [e]
            \<and> get_user_videos srv sec_uid 30 0 st = (Inr videos, st')
            \<and> py_truthy videos \<and> average_views videos = Inr avg \<and> of_int mv \<le> avg
            \<and> influencer_data user uname sec_uid fc avg nich = Inr e)"
proof (cases "candidate_fields user_data")
  case (Inl e)
  with assms show ?thesis
    by (simp add: filter_body_def)
next
  case (Inr c)
  then obtain user uname sec_uid fc where c: "candidate_fields user_data = Inr (user, uname, sec_uid, fc)"
    by (cases c) auto
  show ?thesis
  proof (cases "fc > mf")
    case True
    with assms c show ?thesis
      by (simp add: filter_body_def)
  next
    case False
    with assms c have a: "analyze_videos srv mv nich user uname sec_uid fc qs st = (Inr qs', st')"
      by (simp add: filter_body_def)
    from analyze_videos_result [OF a] show ?thesis
      by blast
  qed
qed

lemma filter_body_calls:
  "\<exists>ext. snd (filter_body srv mf mv nich user_data qs st) = st @ ext"
proof (cases "candidate_fields user_data")
  case (Inl e)
  then show ?thesis
    by (simp add: filter_body_def)
next
  case (Inr c)
  then show ?thesis
    by (cases c) (simp add: filter_body_def analyze_videos_calls)
qed

lemma filter_loop_invariant:
  assumes "filter_loop srv mf mv nich users qs st = (Inr qs', st')" and "I qs st"
    and "\<And>user_data qs st qs' st'.
           filter_body srv mf mv nich user_data qs st = (Inr qs', st') \<Longrightarrow> I qs st \<Longrightarrow> I qs' st'"
  shows "I qs' st'"
  using assms(1,2)
proof (induction users arbitrary: qs st)
  case Nil
  then show ?case by simp
next
  case (Cons user_data users)
  from Cons.prems(1) obtain qs1 st1
    where body: "filter_body srv mf mv nich user_data qs st = (Inr qs1, st1)"
      and rest: "filter_loop srv mf mv nich users qs1 st1 = (Inr qs', st')"
    by (auto split: prod.splits sum.splits)
  from body Cons.prems(2) have "I qs1 st1"
    by (rule assms(3))
  with rest show ?case
    by (rule Cons.IH)
qed

subsection \<open>The average of a list of videos\<close>

lemma sum_play_counts_eq:
  "map play_count vs = map Inr ps \<Longrightarrow> sum_play_counts vs acc = Inr (acc + sum_list ps)"
  by (induction vs arbitrary: ps acc) (auto simp: algebra_simps)

lemma sum_play_counts_Inr:
  "sum_play_counts vs acc = Inr tv \<Longrightarrow>
     \<exists>ps. map play_count vs = map Inr ps \<and> tv = acc + sum_list ps"
proof (induction vs arbitrary: acc)
  case Nil
  then show ?case by simp
next
  case (Cons v vs)
  then obtain n where n: "play_count v = Inr n" and rest: "sum_play_counts vs (acc + n) = Inr tv"
    by (auto split: sum.splits)
  from Cons.IH [OF rest] obtain ps
    where "map play_count vs = map Inr ps" and "tv = acc + n + sum_list ps"
    by blast
  with n have "map play_count (v # vs) = map Inr (n # ps) \<and> tv = acc + sum_list (n # ps)"
    by simp
  then show ?case
    by blast
qed

lemma average_views_value:
  assumes "vs \<noteq> []" and "map play_count vs = map Inr ps"
  shows "average_views (JList vs) =
           (case nearest_double (sum_list ps) (int (length vs)) of
              None \<Rightarrow> Inl OverflowError
            | Some d \<Rightarrow> Inr d)"
  using assms by (simp add: average_views_def sum_play_counts_eq py_truediv_def)

lemma average_views_double:
  assumes "vs \<noteq> []" and "map play_count vs = map Inr ps" and "average_views (JList vs) = Inr avg"
  shows "nearest_double (sum_list ps) (int (length vs)) = Some avg"
  using assms by (simp add: average_views_value split: option.splits)

lemma average_views_rounded:
  assumes "vs \<noteq> []" and "map play_count vs = map Inr ps"
    and "nearest_double (sum_list ps) (int (length vs)) = Some avg"
  shows "average_views (JList vs) = Inr avg"
    and "\<bar>avg - of_int (sum_list ps) / of_nat (length vs)\<bar>
           \<le> max (\<bar>of_int (sum_list ps) / of_nat (length vs)\<bar> / 2 ^ 53) (1 / 2 ^ 1075)"
    and "\<bar>avg\<bar> < 2 ^ 1024"
proof -
  from assms show "average_views (JList vs) = Inr avg"
    by (simp add: average_views_value)
  from assms(1) have pos: "0 < int (length vs)"
    by simp
  from nearest_double_tolerance [OF pos assms(3)]
  show "\<bar>avg - of_int (sum_list ps) / of_nat (length vs)\<bar>
           \<le> max (\<bar>of_int (sum_list ps) / of_nat (length vs)\<bar> / 2 ^ 53) (1 / 2 ^ 1075)"
    by simp
  from pos assms(3) show "\<bar>avg\<bar> < 2 ^ 1024"
    by (rule nearest_double_finite)
qed

lemma play_count_of_string: "play_count (JStr s) = Inl TypeError"
  by (simp add: play_count_def)

lemma sum_play_counts_strings:
  "vs \<noteq> [] \<Longrightarrow> sum_play_counts (map f vs) acc = Inr tv \<Longrightarrow> \<forall>v. \<exists>s. f v = JStr s \<Longrightarrow> False"
proof (cases vs)
  case Nil
  assume "vs \<noteq> []"
  with Nil show ?thesis by simp
next
  case (Cons v vs')
  assume "\<forall>v. \<exists>s. f v = JStr s"
  then obtain s where "f v = JStr s"
    by blast
  moreover assume "sum_play_counts (map f vs) acc = Inr tv"
  ultimately show ?thesis
    using Cons by (simp add: play_count_of_string)
qed

lemma average_views_of_list:
  assumes "py_truthy videos" and "average_views videos = Inr avg"
  shows "\<exists>vs ps. videos = JList vs \<and> vs \<noteq> [] \<and> map play_count vs = map Inr ps
           \<and> nearest_double (sum_list ps) (int (length vs)) = Some avg"
proof (cases videos)
  case (JList vs)
  with assms(1) have ne: "vs \<noteq> []"
    by simp
  from assms(2) JList obtain tv where "sum_play_counts vs 0 = Inr tv"
    and avg: "py_truediv tv (length vs) = Inr avg"
    by (auto simp: average_views_def split: sum.splits)
  from sum_play_counts_Inr [OF this(1)] obtain ps
    where ps: "map play_count vs = map Inr ps" and "tv = sum_list ps"
    by auto
  with avg ne have "nearest_double (sum_list ps) (int (length vs)) = Some avg"
    by (simp add: py_truediv_def split: option.splits)
  with JList ne ps show ?thesis
    by blast
next
  case (JStr s)
  with assms(1) have "s \<noteq> []"
    by simp
  moreover from assms(2) JStr obtain tv
    where "sum_play_counts (map (\<lambda>c. JStr [c]) s) 0 = Inr tv"
    by (auto simp: average_views_def split: sum.splits)
  ultimately have False
    by (rule sum_play_counts_strings) blast
  then show ?thesis ..
next
  case (JObj kvs)
  with assms(1) have "remdups (map fst kvs) \<noteq> []"
    by simp
  moreover from assms(2) JObj obtain tv
    where "sum_play_counts (map JStr (remdups (map fst kvs))) 0 = Inr tv"
    by (auto simp: average_views_def split: sum.splits)
  ultimately have False
    by (rule sum_play_counts_strings) blast
  then show ?thesis ..
qed (use assms in \<open>simp_all add: average_views_def\<close>)

text \<open>
  C2, as stated, does not hold: the average of line 156 is a float, so for the play
  counts 1, 0, 0 it is the double nearest to one third and not one third, and for a
  single video with \<open>2 ^ 1024\<close> plays the division raises \<^verbatim>\<open>OverflowError\<close> and
  there is no average at all.
\<close>

theorem average_differs_from_quotient:
  "map play_count [video_record 1, video_record 0, video_record 0] = map Inr [1, 0, 0]
   \<and> average_views (JList [video_record 1, video_record 0, video_record 0]) =
       Inr (6004799503160661 / 18014398509481984)
   \<and> average_views (JList [video_record 1, video_record 0, video_record 0]) \<noteq>
       Inr (of_int (sum_list [1, 0, 0])
              / of_nat (length [video_record 1, video_record 0, video_record 0]))
   \<and> map play_count [video_record (2 ^ 1024)] = map Inr [2 ^ 1024]
   \<and> average_views (JList [video_record (2 ^ 1024)]) = Inl OverflowError"
proof -
  have "map play_count [video_record 1, video_record 0, video_record 0] = map Inr [1, 0, 0]"
    by (simp add: play_count_def video_record_def)
  moreover
  have third: "average_views (JList [video_record 1, video_record 0, video_record 0]) =
       Inr (6004799503160661 / 18014398509481984)"
    by code_simp
  moreover
  have "(6004799503160661 / 18014398509481984 :: rat) \<noteq>
          of_int (sum_list [1, 0, 0])
            / of_nat (length [video_record 1, video_record 0, video_record 0])"
    by simp
  with third
  have "average_views (JList [video_record 1, video_record 0, video_record 0]) \<noteq>
       Inr (of_int (sum_list [1, 0, 0])
              / of_nat (length [video_record 1, video_record 0, video_record 0]))"
    by (simp only: sum.inject) simp
  moreover
  have "map play_count [video_record (2 ^ 1024)] = map Inr [2 ^ 1024]"
    by (simp add: play_count_def video_record_def)
  moreover
  have "average_views (JList [video_record (2 ^ 1024)]) = Inl OverflowError"
    by code_simp
  ultimately show ?thesis
    by (intro conjI)
qed

text \<open>
  C2, amended. For a non-empty list of videos with integer play counts \<open>ps\<close> the
  average of lines 155 and 156 is the quotient \<open>sum_list ps / length vs\<close> rounded to
  the nearest double: the division returns \<open>nearest_double\<close> of the two, or raises
  \<^verbatim>\<open>OverflowError\<close> where there is none. An average that is returned is a double
  (a mantissa of at most 53 bits times a power of two not below \<open>2 ^ (- 1074)\<close>, of
  magnitude below \<open>2 ^ 1024\<close>), no double is nearer to the quotient, and it differs from
  the quotient by at most \<open>max (\<bar>quotient\<bar> / 2 ^ 53) (1 / 2 ^ 1075)\<close>; it is the
  quotient when that is an integer below \<open>2 ^ 53\<close> in magnitude; and one is returned
  whenever the sum is below \<open>2 ^ 1023\<close> in magnitude. Every influencer in the result of
  the filter carries the average, rounded in this way, of a non-empty list that a video
  request of this run returned for its \<^verbatim>\<open>secUid\<close>; and a round whose video request
  returns the empty list adds nothing to the result.
\<close>

theorem average_is_rounded_quotient:
  "(vs \<noteq> [] \<longrightarrow> map play_count vs = map Inr ps
      \<longrightarrow> average_views (JList vs) =
            (case nearest_double (sum_list ps) (int (length vs)) of
               None \<Rightarrow> Inl OverflowError
             | Some d \<Rightarrow> Inr d))
   \<and> (vs \<noteq> [] \<longrightarrow> map play_count vs = map Inr ps
      \<longrightarrow> average_views (JList vs) = Inr avg
      \<longrightarrow> (\<exists>mant ex. avg = of_int mant * 2 powi ex \<and> \<bar>mant\<bar> \<le> 2 ^ 53 \<and> - 1074 \<le> ex)
          \<and> \<bar>avg\<bar> < 2 ^ 1024
          \<and> (\<bar>m\<bar> \<le> 2 ^ 53 \<longrightarrow> - 1074 \<le> p
              \<longrightarrow> \<bar>avg - of_int (sum_list ps) / of_nat (length vs)\<bar>
                    \<le> \<bar>of_int m * 2 powi p - of_int (sum_list ps) / of_nat (length vs)\<bar>)
          \<and> \<bar>avg - of_int (sum_list ps) / of_nat (length vs)\<bar>
               \<le> max (\<bar>of_int (sum_list ps) / of_nat (length vs)\<bar> / 2 ^ 53) (1 / 2 ^ 1075))
   \<and> (vs \<noteq> [] \<longrightarrow> map play_count vs = map Inr ps
      \<longrightarrow> sum_list ps = k * int (length vs) \<longrightarrow> \<bar>k\<bar> < 2 ^ 53
      \<longrightarrow> average_views (JList vs) = Inr (of_int k))
   \<and> (vs \<noteq> [] \<longrightarrow> map play_count vs = map Inr ps
      \<longrightarrow> \<bar>sum_list ps\<bar> < 2 ^ 1023
      \<longrightarrow> (\<exists>a. average_views (JList vs) = Inr a))
   \<and> (filter_influencers srv users max_followers min_avg_views nich st = (Inr result, st')
      \<longrightarrow> q \<in> set result
      \<longrightarrow> (\<exists>i fetched counts. length st \<le> i \<and> i < length st'
             \<and> get_user_videos srv (secUid q) 30 0 (take i st') =
                 (Inr (JList fetched), take (Suc i) st')
             \<and> fetched \<noteq> [] \<and> map play_count fetched = map Inr counts
             \<and> average_views (JList fetched) = Inr (avgViews q)
             \<and> \<bar>avgViews q - of_int (sum_list counts) / of_nat (length fetched)\<bar>
                 \<le> max (\<bar>of_int (sum_list counts) / of_nat (length fetched)\<bar> / 2 ^ 53)
                       (1 / 2 ^ 1075)))
   \<and> (get_user_videos srv sec_uid 30 0 st = (Inr (JList []), st1)
      \<longrightarrow> candidate_fields user_data = Inr (user, uname, sec_uid, follower_count)
      \<longrightarrow> fst (filter_body srv max_followers min_avg_views nich user_data qs st) = Inr qs)"
proof (intro conjI impI)
  assume "vs \<noteq> []" and "map play_count vs = map Inr ps"
  then show "average_views (JList vs) =
            (case nearest_double (sum_list ps) (int (length vs)) of
               None \<Rightarrow> Inl OverflowError
             | Some d \<Rightarrow> Inr d)"
    by (rule average_views_value)
next
  assume ne: "vs \<noteq> []" and ps: "map play_count vs = map Inr ps"
    and avg: "average_views (JList vs) = Inr avg"
  from ne have "0 < int (length vs)"
    by simp
  then show "\<exists>mant ex. avg = of_int mant * 2 powi ex \<and> \<bar>mant\<bar> \<le> 2 ^ 53 \<and> - 1074 \<le> ex"
    using average_views_double [OF ne ps avg] by (rule nearest_double_representable)
next
  assume ne: "vs \<noteq> []" and ps: "map play_count vs = map Inr ps"
    and avg: "average_views (JList vs) = Inr avg"
  from ne ps average_views_double [OF ne ps avg] show "\<bar>avg\<bar> < 2 ^ 1024"
    by (rule average_views_rounded(3))
next
  assume ne: "vs \<noteq> []" and ps: "map play_count vs = map Inr ps"
    and avg: "average_views (JList vs) = Inr avg"
    and m: "\<bar>m\<bar> \<le> 2 ^ 53" and p: "- 1074 \<le> p"
  from ne have "0 < int (length vs)"
    by simp
  from nearest_double_nearest [OF this average_views_double [OF ne ps avg] m p]
  show "\<bar>avg - of_int (sum_list ps) / of_nat (length vs)\<bar>
          \<le> \<bar>of_int m * 2 powi p - of_int (sum_list ps) / of_nat (length vs)\<bar>"
    by (simp only: of_int_of_nat_eq)
next
  assume ne: "vs \<noteq> []" and ps: "map play_count vs = map Inr ps"
    and avg: "average_views (JList vs) = Inr avg"
  from ne ps average_views_double [OF ne ps avg]
  show "\<bar>avg - of_int (sum_list ps) / of_nat (length vs)\<bar>
            \<le> max (\<bar>of_int (sum_list ps) / of_nat (length vs)\<bar> / 2 ^ 53) (1 / 2 ^ 1075)"
    by (rule average_views_rounded(2))
next
  assume ne: "vs \<noteq> []" and ps: "map play_count vs = map Inr ps"
    and k: "sum_list ps = k * int (length vs)" "\<bar>k\<bar> < 2 ^ 53"
  from ne have "0 < int (length vs)"
    by simp
  from nearest_double_exact [OF this k(2)]
  have "nearest_double (sum_list ps) (int (length vs)) = Some (of_int k)"
    by (simp only: k(1))
  with ne ps show "average_views (JList vs) = Inr (of_int k)"
    by (rule average_views_rounded(1))
next
  assume ne: "vs \<noteq> []" and ps: "map play_count vs = map Inr ps"
    and small: "\<bar>sum_list ps\<bar> < 2 ^ 1023"
  from ne have "0 < int (length vs)"
    by simp
  from nearest_double_total [OF this small]
  obtain d where "nearest_double (sum_list ps) (int (length vs)) = Some d"
    by blast
  with ne ps have "average_views (JList vs) = Inr d"
    by (rule average_views_rounded(1))
  then show "\<exists>a. average_views (JList vs) = Inr a"
    by blast
next
  let ?from = "\<lambda>s q. \<exists>i fetched counts. length st \<le> i \<and> i < length s
             \<and> get_user_videos srv (secUid q) 30 0 (take i s) = (Inr (JList fetched), take (Suc i) s)
             \<and> fetched \<noteq> [] \<and> map play_count fetched = map Inr counts
             \<and> nearest_double (sum_list counts) (int (length fetched)) = Some (avgViews q)"
  let ?I = "\<lambda>qs s. length st \<le> length s \<and> (\<forall>q\<in>set qs. ?from s q)"
  assume run: "filter_influencers srv users max_followers min_avg_views nich st = (Inr result, st')"
    and q: "q \<in> set result"
  have step: "?I qs2 s2"
    if body: "filter_body srv max_followers min_avg_views nich user_data qs1 s1 = (Inr qs2, s2)"
      and inv: "?I qs1 s1" for user_data qs1 s1 qs2 s2
  proof -
    from filter_body_calls [of srv max_followers min_avg_views nich user_data qs1 s1] body
    obtain ext where ext: "s2 = s1 @ ext"
      by auto
    have old: "?from s2 x" if "x \<in> set qs1" for x
    proof -
      from inv that obtain i fetched counts where "length st \<le> i" "i < length s1"
        "get_user_videos srv (secUid x) 30 0 (take i s1) = (Inr (JList fetched), take (Suc i) s1)"
        "fetched \<noteq> []" "map play_count fetched = map Inr counts"
        "nearest_double (sum_list counts) (int (length fetched)) = Some (avgViews x)"
        by blast
      with ext show ?thesis
        by (intro exI [of _ i] exI [of _ fetched] exI [of _ counts]) simp
    qed
    from filter_body_result [OF body] show ?thesis
    proof (elim disjE exE conjE)
      assume "qs2 = qs1"
      with old inv ext show ?thesis
        by simp
    next
      fix e user uname sec_uid fc videos avg
      assume new: "qs2 = qs1 @ [e]"
        and fetch: "get_user_videos srv sec_uid 30 0 s1 = (Inr videos, s2)"
        and "py_truthy videos" "average_views videos = Inr avg"
        and data: "influencer_data user uname sec_uid fc avg nich = Inr e"
      from average_views_of_list [OF this(3,4)] obtain fetched counts
        where "videos = JList fetched" "fetched \<noteq> []" "map play_count fetched = map Inr counts"
          "nearest_double (sum_list counts) (int (length fetched)) = Some avg"
        by blast
      moreover from fetch get_user_videos_calls [of srv sec_uid 30 0 s1]
      have "s2 = s1 @ [UserVideos sec_uid 30 0]"
        by simp
      moreover note influencer_data_fields(2,3) [OF data] fetch inv
      ultimately have "?from s2 e"
        by (intro exI [of _ "length s1"] exI [of _ fetched] exI [of _ counts]) simp
      with old new inv ext show ?thesis
        by auto
    qed
  qed
  from run have "filter_loop srv max_followers min_avg_views nich users [] st = (Inr result, st')"
    by (simp add: filter_influencers_def)
  then have "?I result st'"
    by (rule filter_loop_invariant [where I = ?I]) (simp, rule step)
  with q obtain i fetched counts where i: "length st \<le> i" "i < length st'"
    and fetch: "get_user_videos srv (secUid q) 30 0 (take i st') =
                  (Inr (JList fetched), take (Suc i) st')"
    and ne: "fetched \<noteq> []" and counts: "map play_count fetched = map Inr counts"
    and nd: "nearest_double (sum_list counts) (int (length fetched)) = Some (avgViews q)"
    by blast
  note average_views_rounded(1,2) [OF ne counts nd]
  with i fetch ne counts
  show "\<exists>i fetched counts. length st \<le> i \<and> i < length st'
             \<and> get_user_videos srv (secUid q) 30 0 (take i st') =
                 (Inr (JList fetched), take (Suc i) st')
             \<and> fetched \<noteq> [] \<and> map play_count fetched = map Inr counts
             \<and> average_views (JList fetched) = Inr (avgViews q)
             \<and> \<bar>avgViews q - of_int (sum_list counts) / of_nat (length fetched)\<bar>
                 \<le> max (\<bar>of_int (sum_list counts) / of_nat (length fetched)\<bar> / 2 ^ 53)
                       (1 / 2 ^ 1075)"
    by blast
next
  assume fetch: "get_user_videos srv sec_uid 30 0 st = (Inr (JList []), st1)"
    and c: "candidate_fields user_data = Inr (user, uname, sec_uid, follower_count)"
  show "fst (filter_body srv max_followers min_avg_views nich user_data qs st) = Inr qs"
  proof (cases "follower_count > max_followers")
    case True
    with c show ?thesis
      by (simp add: filter_body_over_ceiling)
  next
    case False
    with c fetch show ?thesis
      by (simp add: filter_body_under_ceiling analyze_videos_empty)
  qed
qed

theorem average_is_rounded_quotient_witness:
  "[video_record 50000, video_record 40000, video_record 60000] \<noteq> []
   \<and> map play_count [video_record 50000, video_record 40000, video_record 60000] =
       map Inr [50000, 40000, 60000]
   \<and> sum_list [50000, 40000, 60000] =
       50000 * int (length [video_record 50000, video_record 40000, video_record 60000])
   \<and> \<bar>50000 :: int\<bar> < 2 ^ 53
   \<and> \<bar>sum_list [50000, 40000, 60000 :: int]\<bar> < 2 ^ 1023
   \<and> average_views (JList [video_record 50000, video_record 40000, video_record 60000]) =
       Inr 50000
   \<and> \<bar>50001 :: int\<bar> \<le> 2 ^ 53 \<and> - 1074 \<le> (0 :: int)
   \<and> \<bar>50000 - of_int (sum_list [50000, 40000, 60000])
                  / of_nat (length [video_record 50000, video_record 40000, video_record 60000])\<bar>
       \<le> \<bar>of_int 50001 * 2 powi 0 - (of_int (sum_list [50000, 40000, 60000])
                  / of_nat (length [video_record 50000, video_record 40000, video_record 60000]) :: rat)\<bar>
   \<and> map play_count [video_record 1, video_record 0, video_record 0] = map Inr [1, 0, 0]
   \<and> average_views (JList [video_record 1, video_record 0, video_record 0]) =
       Inr (6004799503160661 / 18014398509481984)
   \<and> \<bar>6004799503160661 / 18014398509481984 - 1 / (3 :: rat)\<bar> \<le> 1 / 3 / 2 ^ 53
   \<and> \<bar>6004799503160661 / 18014398509481984 - 1 / (3 :: rat)\<bar>
       \<le> \<bar>of_int 6004799503160662 * 2 powi (- 54) - 1 / (3 :: rat)\<bar>
   \<and> filter_influencers demo_server [user_record ''a'' 100, user_record ''b'' 200] 550000 40000 ''tech'' [] =
       (Inr [qualified_a ''tech''], [UserVideos (JStr ''a'') 30 0, UserVideos (JStr ''b'') 30 0])
   \<and> qualified_a ''tech'' \<in> set [qualified_a ''tech'']
   \<and> (\<exists>i fetched counts. length ([] :: calls) \<le> i
          \<and> i < length [UserVideos (JStr ''a'') 30 0, UserVideos (JStr ''b'') 30 0]
          \<and> get_user_videos demo_server (secUid (qualified_a ''tech'')) 30 0
               (take i [UserVideos (JStr ''a'') 30 0, UserVideos (JStr ''b'') 30 0]) =
             (Inr (JList fetched), take (Suc i) [UserVideos (JStr ''a'') 30 0, UserVideos (JStr ''b'') 30 0])
          \<and> fetched \<noteq> [] \<and> map play_count fetched = map Inr counts
          \<and> average_views (JList fetched) = Inr (avgViews (qualified_a ''tech'')))
   \<and> get_user_videos demo_server (JStr ''b'') 30 0 [] = (Inr (JList []), [UserVideos (JStr ''b'') 30 0])
   \<and> fst (filter_body demo_server 550000 40000 ''tech'' (user_record ''b'' 200) [] []) = Inr []"
proof -
  let ?vs = "[video_record 50000, video_record 40000, video_record 60000]"
  let ?ws = "[video_record 1, video_record 0, video_record 0]"
  let ?log = "[UserVideos (JStr ''a'') 30 0, UserVideos (JStr ''b'') 30 0]"
  have ne: "?vs \<noteq> []"
    by simp
  have counts: "map play_count ?vs = map Inr [50000, 40000, 60000]"
    by (simp add: play_count_def video_record_def)
  have k: "sum_list [50000, 40000, 60000] = 50000 * int (length ?vs)" "\<bar>50000 :: int\<bar> < 2 ^ 53"
    by simp_all
  have small: "\<bar>sum_list [50000, 40000, 60000 :: int]\<bar> < 2 ^ 1023"
    by simp
  have run: "filter_influencers demo_server [user_record ''a'' 100, user_record ''b'' 200] 550000 40000 ''tech'' [] =
       (Inr [qualified_a ''tech''], ?log)"
    by code_simp
  have q: "qualified_a ''tech'' \<in> set [qualified_a ''tech'']"
    by simp
  have fetch: "get_user_videos demo_server (JStr ''b'') 30 0 [] = (Inr (JList []), [UserVideos (JStr ''b'') 30 0])"
    by code_simp
  note c = candidate_fields_user_record [of "''b''" 200]
  have mp: "\<bar>50001 :: int\<bar> \<le> 2 ^ 53" "- 1074 \<le> (0 :: int)"
    by simp_all
  note t = average_is_rounded_quotient
    [where vs = ?vs and ps = "[50000, 40000, 60000]" and k = 50000 and avg = 50000
       and m = 50001 and p = 0 and srv = demo_server
       and users = "[user_record ''a'' 100, user_record ''b'' 200]"
       and max_followers = 550000 and min_avg_views = 40000 and nich = "''tech''" and st = "[]"
       and result = "[qualified_a ''tech'']" and st' = ?log
       and q = "qualified_a ''tech''" and sec_uid = "JStr ''b''"
       and ?st1.0 = "[UserVideos (JStr ''b'') 30 0]" and user_data = "user_record ''b'' 200"
       and user = "JObj [(''uniqueId'', JStr ''b''), (''secUid'', JStr ''b''), (''followerCount'', JInt 200)]"
       and uname = "JStr ''b''" and follower_count = 200 and qs = "[]"]
  from t ne counts k have "average_views (JList ?vs) = Inr (of_int 50000)"
    by blast
  then have exact: "average_views (JList ?vs) = Inr 50000"
    by simp
  from t ne counts exact mp
  have nearest: "\<bar>50000 - of_int (sum_list [50000, 40000, 60000]) / of_nat (length ?vs)\<bar>
       \<le> \<bar>of_int 50001 * 2 powi 0
            - (of_int (sum_list [50000, 40000, 60000]) / of_nat (length ?vs) :: rat)\<bar>"
    by blast
  have ws: "map play_count ?ws = map Inr [1, 0, 0]"
    by (simp add: play_count_def video_record_def)
  have third: "average_views (JList ?ws) = Inr (6004799503160661 / 18014398509481984)"
    by code_simp
  note t3 = average_is_rounded_quotient
    [where vs = ?ws and ps = "[1, 0, 0]" and avg = "6004799503160661 / 18014398509481984"
       and m = 6004799503160662 and p = "- 54"]
  have nws: "?ws \<noteq> []"
    by simp
  have mp3: "\<bar>6004799503160662 :: int\<bar> \<le> 2 ^ 53" "- 1074 \<le> (- 54 :: int)"
    by simp_all
  from t3 nws ws third
  have "\<bar>6004799503160661 / 18014398509481984
           - of_int (sum_list [1, 0, 0]) / of_nat (length ?ws)\<bar>
         \<le> max (\<bar>of_int (sum_list [1, 0, 0]) / of_nat (length ?ws)\<bar> / 2 ^ 53) (1 / 2 ^ 1075 :: rat)"
    by blast
  then have near: "\<bar>6004799503160661 / 18014398509481984 - 1 / (3 :: rat)\<bar> \<le> 1 / 3 / 2 ^ 53"
    by simp
  from t3 nws ws third mp3
  have "\<bar>6004799503160661 / 18014398509481984
           - of_int (sum_list [1, 0, 0]) / of_nat (length ?ws)\<bar>
         \<le> \<bar>of_int 6004799503160662 * 2 powi (- 54)
              - (of_int (sum_list [1, 0, 0]) / of_nat (length ?ws) :: rat)\<bar>"
    by blast
  then have neighbour: "\<bar>6004799503160661 / 18014398509481984 - 1 / (3 :: rat)\<bar>
       \<le> \<bar>of_int 6004799503160662 * 2 powi (- 54) - 1 / (3 :: rat)\<bar>"
    by (simp only: sum_list.Cons sum_list.Nil list.size length_Cons add_0_right of_int_1 of_nat_Suc
                   of_nat_0 One_nat_def) simp
  from t run q
  have "\<exists>i fetched counts. length ([] :: calls) \<le> i \<and> i < length ?log
          \<and> get_user_videos demo_server (secUid (qualified_a ''tech'')) 30 0 (take i ?log) =
             (Inr (JList fetched), take (Suc i) ?log)
          \<and> fetched \<noteq> [] \<and> map play_count fetched = map Inr counts
          \<and> average_views (JList fetched) = Inr (avgViews (qualified_a ''tech''))"
    by blast
  moreover from t fetch c
  have "fst (filter_body demo_server 550000 40000 ''tech'' (user_record ''b'' 200) [] []) = Inr []"
    by blast
  ultimately show ?thesis
    using ne counts k small exact mp nearest ws third near neighbour run q fetch by blast
qed

subsection \<open>The filter depends on the video data only\<close>

lemma get_user_videos_frozen:
  assumes "\<forall>i j sec_uid. srv1 i (UserVideos sec_uid 30 0) = srv2 j (UserVideos sec_uid 30 0)"
  shows "fst (get_user_videos srv1 sec_uid 30 0 st1) = fst (get_user_videos srv2 sec_uid 30 0 st2)"
proof -
  from assms have "srv1 (length st1) (UserVideos sec_uid 30 0) = srv2 (length st2) (UserVideos sec_uid 30 0)"
    by blast
  then show ?thesis
    by (simp add: get_user_videos_def http_get_def split: http_response.splits)
qed

lemma analyze_videos_frozen:
  assumes "\<forall>i j sec_uid. srv1 i (UserVideos sec_uid 30 0) = srv2 j (UserVideos sec_uid 30 0)"
  shows "fst (analyze_videos srv1 mv nich user uname sec_uid fc qs st1) =
         fst (analyze_videos srv2 mv nich user uname sec_uid fc qs st2)"
proof -
  obtain r1 s1 where g1: "get_user_videos srv1 sec_uid 30 0 st1 = (r1, s1)"
    by (cases "get_user_videos srv1 sec_uid 30 0 st1")
  obtain r2 s2 where g2: "get_user_videos srv2 sec_uid 30 0 st2 = (r2, s2)"
    by (cases "get_user_videos srv2 sec_uid 30 0 st2")
  from get_user_videos_frozen [OF assms, of sec_uid st1 st2] g1 g2 have "r1 = r2"
    by simp
  with g1 g2 show ?thesis
    by (simp add: analyze_videos_def split: sum.splits)
qed

lemma filter_body_frozen:
  assumes "\<forall>i j sec_uid. srv1 i (UserVideos sec_uid 30 0) = srv2 j (UserVideos sec_uid 30 0)"
  shows "fst (filter_body srv1 mf mv nich user_data qs st1) =
         fst (filter_body srv2 mf mv nich user_data qs st2)"
proof (cases "candidate_fields user_data")
  case (Inl e)
  then show ?thesis
    by (simp add: filter_body_def)
next
  case (Inr c)
  with analyze_videos_frozen [OF assms] show ?thesis
    by (cases c) (simp add: filter_body_def)
qed

lemma filter_loop_frozen:
  assumes "\<forall>i j sec_uid. srv1 i (UserVideos sec_uid 30 0) = srv2 j (UserVideos sec_uid 30 0)"
  shows "fst (filter_loop srv1 mf mv nich users qs st1) =
         fst (filter_loop srv2 mf mv nich users qs st2)"
proof (induction users arbitrary: qs st1 st2)
  case Nil
  show ?case by simp
next
  case (Cons user_data users)
  obtain r1 s1 where b1: "filter_body srv1 mf mv nich user_data qs st1 = (r1, s1)"
    by (cases "filter_body srv1 mf mv nich user_data qs st1")
  obtain r2 s2 where b2: "filter_body srv2 mf mv nich user_data qs st2 = (r2, s2)"
    by (cases "filter_body srv2 mf mv nich user_data qs st2")
  from filter_body_frozen [OF assms, of mf mv nich user_data qs st1 st2] b1 b2 have same: "r2 = r1"
    by simp
  show ?case
  proof (cases r1)
    case (Inl e)
    with b1 b2 same show ?thesis
      by simp
  next
    case (Inr qs')
    with b1 b2 same Cons.IH [of qs' s1 s2] show ?thesis
      by simp
  qed
qed

text \<open>
  C9. When the answer to a video request depends on the requested \<^verbatim>\<open>secUid\<close> only
  (the video data is frozen), the filter returns the same list of influencers, averages
  included, or the same error, whatever requests were issued before: a second run on the
  same candidates repeats the first.
\<close>

theorem filter_is_deterministic:
  assumes "\<forall>i j sec_uid. srv1 i (UserVideos sec_uid 30 0) = srv2 j (UserVideos sec_uid 30 0)"
  shows "fst (filter_influencers srv1 users max_followers min_avg_views nich st1) =
         fst (filter_influencers srv2 users max_followers min_avg_views nich st2)"
  unfolding filter_influencers_def using assms by (rule filter_loop_frozen)

theorem filter_is_deterministic_witness:
  "(\<forall>i j sec_uid. demo_server i (UserVideos sec_uid 30 0) = demo_server j (UserVideos sec_uid 30 0))
   \<and> fst (filter_influencers demo_server [user_record ''a'' 100, user_record ''b'' 200] 550000 40000 ''tech'' []) =
     Inr [qualified_a ''tech'']
   \<and> fst (filter_influencers demo_server [user_record ''a'' 100, user_record ''b'' 200] 550000 40000 ''tech''
            (snd (filter_influencers demo_server [user_record ''a'' 100, user_record ''b'' 200]
                    550000 40000 ''tech'' []))) =
     Inr [qualified_a ''tech'']"
proof -
  have frozen: "\<forall>i j sec_uid. demo_server i (UserVideos sec_uid 30 0) = demo_server j (UserVideos sec_uid 30 0)"
    by (simp add: demo_server_def)
  have run: "fst (filter_influencers demo_server [user_record ''a'' 100, user_record ''b'' 200] 550000 40000 ''tech'' []) =
     Inr [qualified_a ''tech'']"
    by code_simp
  from filter_is_deterministic [OF frozen, of "[user_record ''a'' 100, user_record ''b'' 200]"
      550000 40000 "''tech''"
      "snd (filter_influencers demo_server [user_record ''a'' 100, user_record ''b'' 200] 550000 40000 ''tech'' [])"
      "[]"] run frozen
  show ?thesis
    by simp
qed

section \<open>The orchestrator\<close>

lemma keyword_loop_no_candidates:
  assumes "search_influencers_by_keyword srv keyword rpk st = (Inr [], st')"
  shows "keyword_loop srv mf mv rpk (keyword # keywords) acc st =
         keyword_loop srv mf mv rpk keywords acc st'"
  using assms by (simp add: filter_influencers_def)

text \<open>
  C8. When the first search request of a keyword yields the empty list, the aggregator
  returns the empty list and no error, the filter has nothing to look at, and the
  orchestrator goes on to the next keyword with its list of influencers unchanged.
\<close>

theorem first_page_empty_gives_nothing:
  assumes "search_users srv keyword 30 0 st = (Inr (JList []), st')" and "0 < max_results"
  shows "search_influencers_by_keyword srv keyword max_results st = (Inr [], st')
       \<and> filter_influencers srv [] max_followers min_avg_views keyword st' = (Inr [], st')
       \<and> keyword_loop srv max_followers min_avg_views max_results (keyword # keywords) acc st =
         keyword_loop srv max_followers min_avg_views max_results keywords acc st'"
proof -
  from assms(1) have "search_loop srv keyword max_results [] 0 st = (Inr [], st')"
    by (rule search_loop_first_empty) (simp_all add: assms(2))
  then have agg: "search_influencers_by_keyword srv keyword max_results st = (Inr [], st')"
    by (simp add: search_influencers_by_keyword_def unique_users_def dict_values_def)
  moreover have "filter_influencers srv [] max_followers min_avg_views keyword st' = (Inr [], st')"
    by (simp add: filter_influencers_def)
  moreover note keyword_loop_no_candidates [OF agg]
  ultimately show ?thesis
    by simp
qed

theorem first_page_empty_gives_nothing_witness:
  "search_users silent_server ''tech'' 30 0 [] = (Inr (JList []), [SearchUsers ''tech'' 30 0])
   \<and> (0 :: int) < 50
   \<and> search_influencers_by_keyword silent_server ''tech'' 50 [] = (Inr [], [SearchUsers ''tech'' 30 0])
   \<and> filter_influencers silent_server [] 550000 40000 ''tech'' [SearchUsers ''tech'' 30 0] =
       (Inr [], [SearchUsers ''tech'' 30 0])
   \<and> keyword_loop silent_server 550000 40000 50 [''tech''] [] [] = (Inr [], [SearchUsers ''tech'' 30 0])"
proof -
  have s: "search_users silent_server ''tech'' 30 0 [] = (Inr (JList []), [SearchUsers ''tech'' 30 0])"
    by (simp add: search_users_def http_get_def silent_server_def)
  have m: "(0 :: int) < 50"
    by simp
  show ?thesis
    using s m first_page_empty_gives_nothing [OF s m, of 550000 40000 "[]" "[]"]
    by simp
qed

lemma filter_influencers_niche:
  assumes "filter_influencers srv users mf mv nich st = (Inr found, st')"
  shows "\<forall>q\<in>set found. niche q = nich"
proof -
  from assms have "filter_loop srv mf mv nich users [] st = (Inr found, st')"
    by (simp add: filter_influencers_def)
  then show ?thesis
  proof (rule filter_loop_invariant [where I = "\<lambda>qs s. \<forall>q\<in>set qs. niche q = nich"])
    show "\<forall>q\<in>set []. niche q = nich"
      by simp
  next
    fix user_data qs s qs' s'
    assume "filter_body srv mf mv nich user_data qs s = (Inr qs', s')"
      and "\<forall>q\<in>set qs. niche q = nich"
    with filter_body_result [OF this(1)] show "\<forall>q\<in>set qs'. niche q = nich"
      by (auto dest: influencer_data_fields(4))
  qed
qed

lemma keyword_loop_append:
  "keyword_loop srv mf mv rpk (ks1 @ ks2) acc st =
     (case keyword_loop srv mf mv rpk ks1 acc st of
        (Inl e, st') \<Rightarrow> (Inl e, st')
      | (Inr acc', st') \<Rightarrow> keyword_loop srv mf mv rpk ks2 acc' st')"
  by (induction ks1 arbitrary: acc st) (auto split: prod.splits sum.splits)

lemma keyword_loop_acc:
  "keyword_loop srv mf mv rpk ks acc st =
     (case keyword_loop srv mf mv rpk ks [] st of
        (Inl e, st') \<Rightarrow> (Inl e, st')
      | (Inr found, st') \<Rightarrow> (Inr (acc @ found), st'))"
proof (induction ks arbitrary: acc st)
  case Nil
  show ?case by simp
next
  case (Cons k ks)
  show ?case
  proof (cases "search_influencers_by_keyword srv k rpk st")
    case search: (Pair r1 st1)
    show ?thesis
    proof (cases r1)
      case (Inl e)
      with search show ?thesis by simp
    next
      case users: (Inr users)
      show ?thesis
      proof (cases "filter_influencers srv users mf mv k st1")
        case filter: (Pair r2 st2)
        show ?thesis
        proof (cases r2)
          case (Inl e)
          with search users filter show ?thesis by simp
        next
          case (Inr found)
          have "keyword_loop srv mf mv rpk (k # ks) acc st =
                keyword_loop srv mf mv rpk ks (acc @ found) st2"
            using search users filter Inr by simp
          also have "\<dots> = (case keyword_loop srv mf mv rpk ks [] st2 of
                              (Inl e, st') \<Rightarrow> (Inl e, st')
                            | (Inr later_found, st') \<Rightarrow> (Inr ((acc @ found) @ later_found), st'))"
            by (rule Cons.IH)
          also have "\<dots> = (case keyword_loop srv mf mv rpk ks found st2 of
                              (Inl e, st') \<Rightarrow> (Inl e, st')
                            | (Inr later_found, st') \<Rightarrow> (Inr (acc @ later_found), st'))"
            by (subst (2) Cons.IH) (simp split: prod.splits sum.splits)
          also have "keyword_loop srv mf mv rpk ks found st2 =
                     keyword_loop srv mf mv rpk (k # ks) [] st"
            using search users filter Inr by simp
          finally show ?thesis .
        qed
      qed
    qed
  qed
qed

lemma keyword_loop_parts:
  assumes "keyword_loop srv mf mv rpk earlier [] st = (Inr found_earlier, st1)"
    and "search_influencers_by_keyword srv keyword rpk st1 = (Inr users, st2)"
    and "filter_influencers srv users mf mv keyword st2 = (Inr found, st3)"
    and "keyword_loop srv mf mv rpk later [] st3 = (Inr found_later, st4)"
  shows "keyword_loop srv mf mv rpk (earlier @ keyword # later) [] st =
         (Inr (found_earlier @ found @ found_later), st4)"
proof -
  have "keyword_loop srv mf mv rpk (earlier @ keyword # later) [] st =
        keyword_loop srv mf mv rpk (keyword # later) found_earlier st1"
    using assms(1) by (simp add: keyword_loop_append)
  also have "\<dots> = keyword_loop srv mf mv rpk later (found_earlier @ found) st3"
    using assms(2,3) by simp
  also have "\<dots> = (Inr ((found_earlier @ found) @ found_later), st4)"
    using assms(4) by (subst keyword_loop_acc) simp
  finally show ?thesis
    by simp
qed

text \<open>
  C6. Split the keyword list at a keyword whose filter run found an entry \<open>e\<close>, such
  that no later keyword found an entry with the user name of \<open>e\<close>. When the
  orchestrator returns, its result has no two entries with the same user name, exactly
  one entry with the user name of \<open>e\<close>, and the niche of that entry is this keyword,
  whatever earlier keywords found under that user name. Two user names are the same when
  they are the same key of a Python dict, which \<open>py_key\<close> decides.
\<close>

theorem same_username_last_keyword_wins:
  assumes "keyword_loop srv max_followers min_avg_views rpk earlier [] st = (Inr found_earlier, st1)"
    and "search_influencers_by_keyword srv keyword rpk st1 = (Inr users, st2)"
    and "filter_influencers srv users max_followers min_avg_views keyword st2 = (Inr found, st3)"
    and "keyword_loop srv max_followers min_avg_views rpk later [] st3 = (Inr found_later, st4)"
    and "e \<in> set found"
    and "\<forall>x\<in>set found_later. py_key (username x) \<noteq> py_key (username e)"
    and "find_tiktok_influencers srv (earlier @ keyword # later) max_followers min_avg_views rpk st =
           (Inr result, st')"
  shows "distinct (map (\<lambda>r. py_key (username r)) result)
       \<and> (\<exists>!r. r \<in> set result \<and> py_key (username r) = py_key (username e))
       \<and> (\<forall>r\<in>set result. py_key (username r) = py_key (username e) \<longrightarrow> niche r = keyword)"
proof -
  have key: "influencer_key = (\<lambda>r. py_key (username r))"
    by (rule ext) (simp add: influencer_key_def)
  from keyword_loop_parts [OF assms(1-4)] assms(7)
  have "unique_influencers (found_earlier @ found @ found_later) = Inr result"
    by (simp add: find_tiktok_influencers_def)
  then obtain d where d: "dict_by influencer_key (found_earlier @ found @ found_later) [] = Inr d"
    and result: "result = dict_values d"
    by (auto simp: unique_influencers_def split: sum.splits)
  from assms(5) have "\<exists>x\<in>set found. influencer_key x = influencer_key e"
    by blast
  from split_list_last_prop [OF this]
  obtain f1 u f2 where found: "found = f1 @ u # f2"
    and u: "influencer_key u = influencer_key e"
    and f2: "\<forall>x\<in>set f2. influencer_key x \<noteq> influencer_key e"
    by blast
  from found d have d': "dict_by influencer_key ((found_earlier @ f1) @ u # (f2 @ found_later)) [] = Inr d"
    by simp
  from assms(6) have "\<forall>x\<in>set found_later. influencer_key x \<noteq> influencer_key e"
    by (simp add: influencer_key_def)
  with f2 u have "\<forall>x\<in>set (f2 @ found_later). influencer_key x \<noteq> influencer_key u"
    by auto
  note last = comprehension_last_wins [OF d' this]
  from last(1) result have inside: "u \<in> set result"
    by simp
  from last(2) result u
  have only: "\<forall>v\<in>set result. influencer_key v = influencer_key e \<longrightarrow> v = u"
    by simp
  from filter_influencers_niche [OF assms(3)] found have "niche u = keyword"
    by simp
  have "distinct (map influencer_key result)"
    using comprehension_values(3) [OF d] result by simp
  moreover have "\<exists>!r. r \<in> set result \<and> influencer_key r = influencer_key e"
  proof (rule ex1I [of _ u])
    from inside u show "u \<in> set result \<and> influencer_key u = influencer_key e"
      by simp
  next
    fix r
    assume "r \<in> set result \<and> influencer_key r = influencer_key e"
    with only show "r = u"
      by blast
  qed
  moreover from only \<open>niche u = keyword\<close>
  have "\<forall>r\<in>set result. influencer_key r = influencer_key e \<longrightarrow> niche r = keyword"
    by blast
  ultimately
  have "distinct (map influencer_key result)
       \<and> (\<exists>!r. r \<in> set result \<and> influencer_key r = influencer_key e)
       \<and> (\<forall>r\<in>set result. influencer_key r = influencer_key e \<longrightarrow> niche r = keyword)"
    by (intro conjI)
  then show ?thesis
    unfolding key by blast
qed

theorem same_username_last_keyword_wins_witness:
  "keyword_loop niche_server 550000 40000 50 [''tech''] [] [] =
     (Inr [qualified_a ''tech'', qualified_d ''tech''],
      [SearchUsers ''tech'' 30 0, SearchUsers ''tech'' 30 2,
       UserVideos (JStr ''a'') 30 0, UserVideos (JStr ''d'') 30 0])
   \<and> keyword_loop niche_server 550000 40000 50 [''ai''] [] 
       [SearchUsers ''tech'' 30 0, SearchUsers ''tech'' 30 2,
        UserVideos (JStr ''a'') 30 0, UserVideos (JStr ''d'') 30 0] =
     (Inr [qualified_a ''ai''],
      [SearchUsers ''tech'' 30 0, SearchUsers ''tech'' 30 2,
       UserVideos (JStr ''a'') 30 0, UserVideos (JStr ''d'') 30 0,
       SearchUsers ''ai'' 30 0, SearchUsers ''ai'' 30 1, UserVideos (JStr ''a'') 30 0])
   \<and> find_tiktok_influencers niche_server [''tech'', ''ai''] 550000 40000 50 [] =
     (Inr [qualified_a ''ai'', qualified_d ''tech''],
      [SearchUsers ''tech'' 30 0, SearchUsers ''tech'' 30 2,
       UserVideos (JStr ''a'') 30 0, UserVideos (JStr ''d'') 30 0,
       SearchUsers ''ai'' 30 0, SearchUsers ''ai'' 30 1, UserVideos (JStr ''a'') 30 0])
   \<and> py_key (username (qualified_a ''ai'')) \<noteq> py_key (username (qualified_d ''tech''))
   \<and> distinct (map (\<lambda>r. py_key (username r)) [qualified_a ''ai'', qualified_d ''tech''])
   \<and> (\<exists>r. r \<in> set [qualified_a ''ai'', qualified_d ''tech'']
          \<and> py_key (username r) = py_key (JStr ''a'') \<and> niche r = ''ai'')
   \<and> (\<exists>r. r \<in> set [qualified_a ''ai'', qualified_d ''tech'']
          \<and> py_key (username r) = py_key (JStr ''d'') \<and> niche r = ''tech'')
   \<and> filter (\<lambda>r. py_key (username r) = py_key (JStr ''a'')) [qualified_a ''ai'', qualified_d ''tech'']
       = [qualified_a ''ai'']"
proof -
  let ?st1 = "[SearchUsers ''tech'' 30 0, SearchUsers ''tech'' 30 2,
       UserVideos (JStr ''a'') 30 0, UserVideos (JStr ''d'') 30 0]"
  let ?st2 = "?st1 @ [SearchUsers ''ai'' 30 0, SearchUsers ''ai'' 30 1]"
  let ?st3 = "?st2 @ [UserVideos (JStr ''a'') 30 0]"
  let ?result = "[qualified_a ''ai'', qualified_d ''tech'']"
  have ua: "username (qualified_a ''ai'') = JStr ''a''"
    and ud: "username (qualified_d ''tech'') = JStr ''d''"
    by (simp_all add: qualified_a_def qualified_d_def)
  have h7: "find_tiktok_influencers niche_server [''tech'', ''ai''] 550000 40000 50 [] =
     (Inr ?result, ?st3)"
    by code_simp
  have a1: "keyword_loop niche_server 550000 40000 50 [''tech''] [] [] =
              (Inr [qualified_a ''tech'', qualified_d ''tech''], ?st1)"
    by code_simp
  have a2: "search_influencers_by_keyword niche_server ''ai'' 50 ?st1 =
              (Inr [user_record ''a'' 100], ?st2)"
    by code_simp
  have a3: "filter_influencers niche_server [user_record ''a'' 100] 550000 40000 ''ai'' ?st2 =
              (Inr [qualified_a ''ai''], ?st3)"
    by code_simp
  have a4: "keyword_loop niche_server 550000 40000 50 [] [] ?st3 = (Inr [], ?st3)"
    by simp
  have a5: "qualified_a ''ai'' \<in> set [qualified_a ''ai'']"
    by simp
  have a6: "\<forall>x\<in>set []. py_key (username x) \<noteq> py_key (username (qualified_a ''ai''))"
    by simp
  have a7: "find_tiktok_influencers niche_server ([''tech''] @ ''ai'' # []) 550000 40000 50 [] =
              (Inr ?result, ?st3)"
    using h7 by simp
  note ta = same_username_last_keyword_wins [OF a1 a2 a3 a4 a5 a6 a7]
  have d1: "keyword_loop niche_server 550000 40000 50 [] [] [] = (Inr [], [])"
    by simp
  have d2: "search_influencers_by_keyword niche_server ''tech'' 50 [] =
              (Inr [user_record ''a'' 100, user_record ''d'' 300],
               [SearchUsers ''tech'' 30 0, SearchUsers ''tech'' 30 2])"
    by code_simp
  have d3: "filter_influencers niche_server [user_record ''a'' 100, user_record ''d'' 300]
              550000 40000 ''tech'' [SearchUsers ''tech'' 30 0, SearchUsers ''tech'' 30 2] =
              (Inr [qualified_a ''tech'', qualified_d ''tech''], ?st1)"
    by code_simp
  have d4: "keyword_loop niche_server 550000 40000 50 [''ai''] [] ?st1 =
              (Inr [qualified_a ''ai''], ?st3)"
    by code_simp
  have d5: "qualified_d ''tech'' \<in> set [qualified_a ''tech'', qualified_d ''tech'']"
    by simp
  have differ: "py_key (username (qualified_a ''ai'')) \<noteq> py_key (username (qualified_d ''tech''))"
    by (simp add: ua ud)
  then have d6: "\<forall>x\<in>set [qualified_a ''ai''].
                   py_key (username x) \<noteq> py_key (username (qualified_d ''tech''))"
    by simp
  have d7: "find_tiktok_influencers niche_server ([] @ ''tech'' # [''ai'']) 550000 40000 50 [] =
              (Inr ?result, ?st3)"
    using h7 by simp
  note td = same_username_last_keyword_wins [OF d1 d2 d3 d4 d5 d6 d7]
  from ta have "distinct (map (\<lambda>r. py_key (username r)) ?result)"
    by blast
  moreover from ta
  have "\<exists>r. r \<in> set ?result \<and> py_key (username r) = py_key (JStr ''a'') \<and> niche r = ''ai''"
    unfolding ua by blast
  moreover from td
  have "\<exists>r. r \<in> set ?result \<and> py_key (username r) = py_key (JStr ''d'') \<and> niche r = ''tech''"
    unfolding ud by blast
  moreover
  have "filter (\<lambda>r. py_key (username r) = py_key (JStr ''a'')) ?result = [qualified_a ''ai'']"
    by (simp add: qualified_a_def qualified_d_def)
  ultimately show ?thesis
    using a1 d4 h7 differ by simp
qed

end
